theory Spec2Isabelle
  imports Main "HOL-Library.Char_ord" "HOL-Library.List_Lexorder"
begin

section \<open>JavaScript values used by the script-tree resolver\<close>

text \<open>
  The module under verification is the resolver of npm-scripts-tree: the file
  \<^verbatim>\<open>src/unnamed/part_000\<close> (with minimatch and pruning), and the functions of the
  earlier \<^verbatim>\<open>src/index.js\<close> where they differ from it.

  Strings are lists of code units; the model carries the code units 0 to 255.
  An object with string keys is an association list holding its own enumerable
  properties in the order \<^verbatim>\<open>Object.keys\<close> lists them; the keys of an object are
  distinct, which the theorems that need it assume as \<open>distinct (Object_keys o)\<close>.
  The key \<^verbatim>\<open>__proto__\<close>, which an assignment \<^verbatim>\<open>obj[k] = v\<close> does not store as a
  property, is outside the model.
\<close>

type_synonym 'a obj = "(string \<times> 'a) list"

definition Object_keys :: "'a obj \<Rightarrow> string list" where
  "Object_keys obj = map fst obj"

text \<open>
  Reading \<^verbatim>\<open>obj[k]\<close> yields the own property when there is one. A plain object
  (an object literal, parsed JSON) inherits the members of \<^verbatim>\<open>Object.prototype\<close>,
  so reading one of their names yields a function (or, for \<^verbatim>\<open>__proto__\<close>, the
  prototype object) and not \<^verbatim>\<open>undefined\<close>. The table pairs each inherited name
  with the text \<^verbatim>\<open>String(value)\<close> gives for it.
\<close>

datatype 'a propval = Undefined | Own 'a | Inherited string

definition OBJECT_PROTOTYPE :: "(string \<times> string) list" where
  "OBJECT_PROTOTYPE =
    [(''constructor'', ''function Object() { [native code] }''),
     (''__defineGetter__'', ''function __defineGetter__() { [native code] }''),
     (''__defineSetter__'', ''function __defineSetter__() { [native code] }''),
     (''hasOwnProperty'', ''function hasOwnProperty() { [native code] }''),
     (''__lookupGetter__'', ''function __lookupGetter__() { [native code] }''),
     (''__lookupSetter__'', ''function __lookupSetter__() { [native code] }''),
     (''isPrototypeOf'', ''function isPrototypeOf() { [native code] }''),
     (''propertyIsEnumerable'', ''function propertyIsEnumerable() { [native code] }''),
     (''toString'', ''function toString() { [native code] }''),
     (''valueOf'', ''function valueOf() { [native code] }''),
     (''__proto__'', ''[object Object]''),
     (''toLocaleString'', ''function toLocaleString() { [native code] }'')]"

definition get :: "'a obj \<Rightarrow> string \<Rightarrow> 'a propval" where
  "get obj k =
     (case map_of obj k of
        Some v \<Rightarrow> Own v
      | None \<Rightarrow> (case map_of OBJECT_PROTOTYPE k of
                   Some txt \<Rightarrow> Inherited txt
                 | None \<Rightarrow> Undefined))"

text \<open>\<^verbatim>\<open>obj[k] = v\<close>: an existing key keeps its place, a new key goes last.\<close>

fun put :: "'a obj \<Rightarrow> string \<Rightarrow> 'a \<Rightarrow> 'a obj" where
  "put [] k v = [(k, v)]"
| "put ((k', v') # obj) k v = (if k' = k then (k, v) # obj else (k', v') # put obj k v)"

text \<open>Truthiness of a value read from a map of strings: the empty string is falsy.\<close>

fun truthy :: "string propval \<Rightarrow> bool" where
  "truthy Undefined = False"
| "truthy (Own s) = (s \<noteq> [])"
| "truthy (Inherited txt) = True"

text \<open>\<^verbatim>\<open>String(v)\<close>, as \<^verbatim>\<open>RegExp.prototype.exec\<close> applies it to its argument.\<close>

fun ToString :: "string propval \<Rightarrow> string" where
  "ToString Undefined = ''undefined''"
| "ToString (Own s) = s"
| "ToString (Inherited txt) = txt"

text \<open>What a function of the module can throw, and a loop that never ends.\<close>

datatype failure = Error string | TypeError | Diverges

subsection \<open>The utilities \<^verbatim>\<open>unique\<close> and \<^verbatim>\<open>flatten\<close>\<close>

text \<open>
  \<^verbatim>\<open>[...new Set(array)]\<close>: a set keeps the first occurrence of each value, in
  insertion order.
\<close>

definition unique :: "'a list \<Rightarrow> 'a list" where
  "unique array = foldl (\<lambda>acc x. if x \<in> set acc then acc else acc @ [x]) [] array"

definition flatten :: "'a list list \<Rightarrow> 'a list" where
  "flatten arrays = concat arrays"

subsection \<open>String methods\<close>

definition WHITESPACE :: "char list" where
  "WHITESPACE = [CHR 0x09, CHR 0x0A, CHR 0x0B, CHR 0x0C, CHR 0x0D, CHR 0x20, CHR 0xA0]"

definition trim :: "string \<Rightarrow> string" where
  "trim s = rev (dropWhile (\<lambda>c. c \<in> set WHITESPACE) (rev (dropWhile (\<lambda>c. c \<in> set WHITESPACE) s)))"

text \<open>\<^verbatim>\<open>s.split(sep)\<close> for a separator of one character.\<close>

fun split :: "char \<Rightarrow> string \<Rightarrow> string list" where
  "split sep [] = [[]]"
| "split sep (c # s) =
     (if c = sep then [] # split sep s
      else (case split sep s of [] \<Rightarrow> [[c]] | w # ws \<Rightarrow> (c # w) # ws))"

definition startsWith :: "string \<Rightarrow> string \<Rightarrow> bool" where
  "startsWith s p = (take (length p) s = p)"

section \<open>Regular expressions\<close>

text \<open>
  The patterns of the module use literal characters, character classes, greedy
  \<^verbatim>\<open>*\<close> and \<^verbatim>\<open>+\<close>, grouping and one capturing group, and are all compiled with
  the flags \<^verbatim>\<open>gi\<close>. The matcher below is the backtracking matcher of ECMAScript
  for this fragment: \<open>ms r s cap\<close> lists, in the order backtracking tries them,
  the ways \<open>r\<close> can match a prefix of \<open>s\<close>, each as the rest of the input and
  the value of capture 1.
\<close>

datatype regex =
    Lit char
  | Class "char list"
  | Seq regex regex
  | Star regex
  | Plus regex
  | Group regex

text \<open>
  Flag \<^verbatim>\<open>i\<close>: characters are compared after canonicalisation. The patterns are
  ASCII, and a character outside ASCII never canonicalises to an ASCII one, so
  mapping a-z to A-Z decides the same matches.
\<close>

definition canonicalize :: "char \<Rightarrow> char" where
  "canonicalize c =
     (case map_of (zip ''abcdefghijklmnopqrstuvwxyz'' ''ABCDEFGHIJKLMNOPQRSTUVWXYZ'') c of
        Some u \<Rightarrow> u
      | None \<Rightarrow> c)"

primrec has_group :: "regex \<Rightarrow> bool" where
  "has_group (Lit c) = False"
| "has_group (Class cs) = False"
| "has_group (Seq r1 r2) = (has_group r1 \<or> has_group r2)"
| "has_group (Star r) = has_group r"
| "has_group (Plus r) = has_group r"
| "has_group (Group r) = True"

primrec weight :: "regex \<Rightarrow> nat" where
  "weight (Lit c) = 1"
| "weight (Class cs) = 1"
| "weight (Seq r1 r2) = weight r1 + weight r2 + 1"
| "weight (Star r) = weight r + 1"
| "weight (Plus r) = weight r + 2"
| "weight (Group r) = weight r + 1"

text \<open>
  A quantifier clears the captures inside its body when an iteration starts, and
  an iteration of \<^verbatim>\<open>*\<close> (or of \<^verbatim>\<open>+\<close> after the first) that consumes nothing
  fails.
\<close>

function ms :: "regex \<Rightarrow> string \<Rightarrow> string option \<Rightarrow> (string \<times> string option) list" where
  "ms (Lit c) s cap =
     (case s of
        [] \<Rightarrow> []
      | x # xs \<Rightarrow> if canonicalize x = canonicalize c then [(xs, cap)] else [])"
| "ms (Class cs) s cap =
     (case s of
        [] \<Rightarrow> []
      | x # xs \<Rightarrow> if canonicalize x \<in> set (map canonicalize cs) then [(xs, cap)] else [])"
| "ms (Seq r1 r2) s cap = concat (map (\<lambda>p. ms r2 (fst p) (snd p)) (ms r1 s cap))"
| "ms (Group r) s cap =
     map (\<lambda>p. (fst p, Some (take (length s - length (fst p)) s))) (ms r s cap)"
| "ms (Star r) s cap =
     concat (map (\<lambda>p. if length (fst p) < length s then ms (Star r) (fst p) (snd p) else [])
                 (ms r s (if has_group r then None else cap)))
     @ [(s, cap)]"
| "ms (Plus r) s cap =
     concat (map (\<lambda>p. ms (Star r) (fst p) (snd p))
                 (ms r s (if has_group r then None else cap)))"
  by pat_completeness auto
termination
  by (relation "measures [\<lambda>(r, s, c). weight r, \<lambda>(r, s, c). length s]") auto

text \<open>
  \<^verbatim>\<open>re.exec(str)\<close> from \<^verbatim>\<open>lastIndex\<close>: the first start position with a match, and
  there the first match. \<open>s\<close> is the input from \<^verbatim>\<open>lastIndex\<close> on; the result is
  \<^verbatim>\<open>m[1]\<close> and the input from the new \<^verbatim>\<open>lastIndex\<close> on.
\<close>

fun exec :: "regex \<Rightarrow> string \<Rightarrow> (string option \<times> string) option" where
  "exec re s =
     (case ms re s None of
        p # _ \<Rightarrow> Some (snd p, fst p)
      | [] \<Rightarrow> (case s of [] \<Rightarrow> None | _ # s' \<Rightarrow> exec re s'))"

text \<open>A literal string followed by the rest of a pattern.\<close>

definition lits :: "string \<Rightarrow> regex \<Rightarrow> regex" where
  "lits s r = foldr (\<lambda>c. Seq (Lit c)) s r"

text \<open>\<^verbatim>\<open>\s\<close> and \<^verbatim>\<open>\w\<close>.\<close>

definition RE_s :: regex where
  "RE_s = Class WHITESPACE"

definition RE_w :: regex where
  "RE_w = Class ''abcdefghijklmnopqrstuvwxyzABCDEFGHIJKLMNOPQRSTUVWXYZ0123456789_''"

section \<open>The resolver\<close>

definition BUILTINS :: "string list" where
  "BUILTINS = [''publish'', ''install'', ''uninstall'', ''test'', ''stop'', ''start'',
               ''restart'', ''version'']"

text \<open>\<^verbatim>\<open>RE_FLAGS = "(?:\\s+\-+\\w+)*"\<close>\<close>

definition RE_FLAGS :: regex where
  "RE_FLAGS = Star (Seq (Plus RE_s) (Seq (Plus (Lit CHR ''-'')) (Plus RE_w)))"

text \<open>\<^verbatim>\<open>RE_NAME = "\\s+([a-z0-9_:\\-]+)"\<close>\<close>

definition RE_NAME :: regex where
  "RE_NAME = Seq (Plus RE_s) (Group (Plus (Class ''abcdefghijklmnopqrstuvwxyz0123456789_:-'')))"

text \<open>\<^verbatim>\<open>RE_NAMES = "((?:\\s+[a-z0-9_:\\-\\*]+)+)"\<close>\<close>

definition RE_NAMES :: regex where
  "RE_NAMES =
     Group (Plus (Seq (Plus RE_s) (Plus (Class ''abcdefghijklmnopqrstuvwxyz0123456789_:-*''))))"

definition SEP :: char where
  "SEP = CHR '':''"

definition PRE :: string where
  "PRE = ''pre''"

definition POST :: string where
  "POST = ''post''"

record match_rec =
  match :: "string option"
  index :: "string option"

text \<open>
  \<^verbatim>\<open>getMatches\<close>: the loop calls \<^verbatim>\<open>re.exec\<close> until it returns null. A match that
  leaves \<^verbatim>\<open>lastIndex\<close> where it was is found again for ever. The patterns have
  one group, so \<^verbatim>\<open>m[2]\<close> is undefined.
\<close>

function getMatches :: "regex \<Rightarrow> string \<Rightarrow> failure + match_rec list" where
  "getMatches re s =
     (case exec re s of
        None \<Rightarrow> Inr []
      | Some (m1, rest) \<Rightarrow>
          if length rest < length s then
            (case getMatches re rest of
               Inl e \<Rightarrow> Inl e
             | Inr matches \<Rightarrow> Inr (\<lparr>match = m1, index = None\<rparr> # matches))
          else Inl Diverges)"
  by pat_completeness auto
termination
  by (relation "measure (\<lambda>(re, s). length s)") auto

text \<open>
  \<^verbatim>\<open>new RegExp("(?:npm run" + RE_NAME + ")+", "gi")\<close>. The result lists the values of
  \<^verbatim>\<open>m[1]\<close>: \<open>Some s\<close> is the string \<open>s\<close>, \<open>None\<close> is undefined.
\<close>

definition getRunScripts :: "string \<Rightarrow> failure + string option list" where
  "getRunScripts cmd =
     (let re = Plus (lits ''npm run'' RE_NAME) in
      case getMatches re cmd of
        Inl e \<Rightarrow> Inl e
      | Inr matches \<Rightarrow> Inr (unique (map match matches)))"

text \<open>
  \<^verbatim>\<open>RegExp("(?:npm-run-all" + RE_FLAGS + RE_NAMES + ")+", "gi")\<close>; calling
  \<^verbatim>\<open>trim\<close> on an undefined \<^verbatim>\<open>m[1]\<close> throws a TypeError.
\<close>

fun clean_spaces :: "match_rec list \<Rightarrow> failure + string list list" where
  "clean_spaces [] = Inr []"
| "clean_spaces (m # matches) =
     (case match m of
        None \<Rightarrow> Inl TypeError
      | Some m1 \<Rightarrow>
          (case clean_spaces matches of
             Inl e \<Rightarrow> Inl e
           | Inr cmds \<Rightarrow> Inr (filter (\<lambda>x. x \<noteq> []) (split CHR '' '' (trim m1)) # cmds)))"

definition getRunAllScripts :: "string \<Rightarrow> failure + string list" where
  "getRunAllScripts cmd =
     (let re = Plus (lits ''npm-run-all'' (Seq RE_FLAGS RE_NAMES)) in
      case getMatches re cmd of
        Inl e \<Rightarrow> Inl e
      | Inr matches \<Rightarrow>
          (case clean_spaces matches of
             Inl e \<Rightarrow> Inl e
           | Inr cmds \<Rightarrow> Inr (unique (flatten cmds))))"

subsection \<open>The glob test of the package minimatch\<close>

text \<open>
  Modelled from the spec: the function \<^verbatim>\<open>minimatch(name, pattern)\<close> of the npm package
  minimatch, which the module requires and which is not part of the repository. The
  spec asks for a standard glob test on path-like names where \<^verbatim>\<open>*\<close> stands for one
  segment and \<^verbatim>\<open>**\<close> for any number of segments. The model follows the package for
  the patterns the extractor can produce, in which \<^verbatim>\<open>*\<close> is the only special
  character: pattern and name are cut at runs of \<^verbatim>\<open>/\<close>; a segment \<^verbatim>\<open>**\<close> swallows
  any number of name segments that do not start with a dot; in any other segment
  \<^verbatim>\<open>*\<close> matches any run of characters, the segment matched is not empty and, when the
  pattern segment starts with \<^verbatim>\<open>*\<close>, does not start with a dot; a segment without
  \<^verbatim>\<open>*\<close> matches itself only. The other special characters of the package
  (\<^verbatim>\<open>? [ ] { } ( ) ! #\<close> and the backslash) and a pattern with white space around
  it, which the package trims, are outside the model. The properties proved for every script map
  and name do not depend on what the test answers.
\<close>

function slashSplit :: "string \<Rightarrow> string list" where
  "slashSplit [] = [[]]"
| "slashSplit (c # s) =
     (if c = CHR ''/'' then [] # slashSplit (dropWhile (\<lambda>x. x = CHR ''/'') s)
      else (case slashSplit s of [] \<Rightarrow> [[c]] | w # ws \<Rightarrow> (c # w) # ws))"
  by pat_completeness auto
termination
  by (relation "measure length") (auto simp: le_imp_less_Suc length_dropWhile_le)

datatype part = GLOBSTAR | Plain string | Magic string

definition parse :: "string \<Rightarrow> part" where
  "parse pattern =
     (if pattern = ''**'' then GLOBSTAR
      else if CHR ''*'' \<in> set pattern then Magic pattern
      else Plain pattern)"

fun star_match :: "string \<Rightarrow> string \<Rightarrow> bool" where
  "star_match [] f = (f = [])"
| "star_match (c # p) [] = (c = CHR ''*'' \<and> star_match p [])"
| "star_match (c # p) (x # f) =
     (if c = CHR ''*'' then star_match p (x # f) \<or> star_match (c # p) f
      else c = x \<and> star_match p f)"

fun hit :: "part \<Rightarrow> string \<Rightarrow> bool" where
  "hit GLOBSTAR f = False"
| "hit (Plain p) f = (f = p)"
| "hit (Magic p) f =
     (case f of
        [] \<Rightarrow> False
      | x # _ \<Rightarrow>
          x \<noteq> CHR 0x0A \<and> x \<noteq> CHR 0x0D \<and>
          (if take 1 p = ''*'' then x \<noteq> CHR ''.'' else True) \<and>
          star_match p f)"

definition dotted :: "string \<Rightarrow> bool" where
  "dotted f = (take 1 f = ''.'')"

function matchOne :: "string list \<Rightarrow> part list \<Rightarrow> bool"
  and swallow :: "string list \<Rightarrow> part list \<Rightarrow> bool" where
  "matchOne [] [] = True"
| "matchOne (f # file) [] = (file = [] \<and> f = [])"
| "matchOne [] (p # pattern) = False"
| "matchOne (f # file) (p # pattern) =
     (if p = GLOBSTAR then
        (if pattern = [] then list_all (\<lambda>x. \<not> dotted x) (f # file)
         else swallow (f # file) pattern)
      else hit p f \<and> matchOne file pattern)"
| "swallow [] pattern = False"
| "swallow (f # file) pattern =
     (if matchOne (f # file) pattern then True
      else if dotted f then False
      else swallow file pattern)"
  by pat_completeness auto
termination
  by (relation "measure (\<lambda>x. case x of
          Inl (file, pattern) \<Rightarrow> 2 * (length file + length pattern)
        | Inr (file, pattern) \<Rightarrow> 2 * (length file + length pattern) + 1)") auto

definition minimatch :: "string \<Rightarrow> string \<Rightarrow> bool" where
  "minimatch p pattern =
     (if pattern = [] then p = []
      else matchOne (slashSplit p) (map parse (slashSplit pattern)))"

subsection \<open>Lifecycle scripts and sub-script names\<close>

text \<open>\<^verbatim>\<open>s.replace(/[:\/]/g, m => SWAP_MAP[m])\<close>\<close>

definition SWAP_MAP :: "(char \<times> char) list" where
  "SWAP_MAP = [(CHR '':'', CHR ''/''), (CHR ''/'', CHR '':'')]"

definition swapColonAndSlash :: "string \<Rightarrow> string" where
  "swapColonAndSlash s = map (\<lambda>m. case map_of SWAP_MAP m of Some c \<Rightarrow> c | None \<Rightarrow> m) s"

text \<open>
  \<^verbatim>\<open>name.match(new RegExp("^" + prefix))\<close> is a test for the prefix when the prefix
  has no character that is special in a pattern, as \<^verbatim>\<open>PRE\<close> and \<^verbatim>\<open>POST\<close>, the two
  prefixes the module passes.
\<close>

definition isLifeCycleScript :: "string \<Rightarrow> string \<Rightarrow> string obj \<Rightarrow> bool" where
  "isLifeCycleScript prefix name scripts =
     (let root = drop (length prefix) name in
      startsWith name prefix \<and> (truthy (get scripts root) \<or> root \<in> set BUILTINS))"

definition expandWildcard :: "string \<Rightarrow> string obj \<Rightarrow> string list" where
  "expandWildcard name scripts =
     (let n = swapColonAndSlash name in
      map swapColonAndSlash
        (filter (\<lambda>x. minimatch x n) (map swapColonAndSlash (Object_keys scripts))))"

definition expandWildcards :: "string list \<Rightarrow> string obj \<Rightarrow> string list" where
  "expandWildcards names scripts = flatten (map (\<lambda>x. expandWildcard x scripts) names)"

definition getExistingSubNames :: "string list \<Rightarrow> string obj \<Rightarrow> string list" where
  "getExistingSubNames names scripts =
     filter (\<lambda>n. truthy (get scripts n)) (expandWildcards names scripts)"

text \<open>
  \<^verbatim>\<open>.filter(x => x)\<close> on the names extracted: an undefined capture and the empty
  string are dropped.
\<close>

fun not_null :: "string option list \<Rightarrow> string list" where
  "not_null [] = []"
| "not_null (None # xs) = not_null xs"
| "not_null (Some x # xs) = (if x = [] then not_null xs else x # not_null xs)"

definition getSubNames :: "string \<Rightarrow> string obj \<Rightarrow> failure + string list" where
  "getSubNames name scripts =
     (let cmd = ToString (get scripts name) in
      case getRunScripts cmd of
        Inl e \<Rightarrow> Inl e
      | Inr runs \<Rightarrow>
          (case getRunAllScripts cmd of
             Inl e \<Rightarrow> Inl e
           | Inr runAlls \<Rightarrow>
               (let subNames = not_null (runs @ map Some runAlls)
                in Inr (getExistingSubNames (unique subNames) scripts))))"

subsection \<open>The three passes\<close>

text \<open>
  An entry of the detailed map, as the first pass builds it. \<^verbatim>\<open>cmd\<close>, \<^verbatim>\<open>pre\<close>
  and \<^verbatim>\<open>post\<close> hold what reading the script map gave.
\<close>

record script =
  name :: string
  cmd :: "string propval"
  isPre :: bool
  isPost :: bool
  pre :: "string propval"
  post :: "string propval"
  subNames :: "string list"

text \<open>
  The colour functions of chalk only decorate the label. The model keeps what
  \<^verbatim>\<open>getLabel\<close> decides: the style of the name, the name and the command text.
  \<^verbatim>\<open>getLabel\<close> reads the field \<^verbatim>\<open>isSub\<close> that the second pass has just set; in
  the model it is the argument \<open>sub\<close>.
\<close>

datatype style = cyan | bold | plain

datatype label_text = Label style string string

text \<open>
  The second pass adds fields to each entry in place. The entries of \<^verbatim>\<open>nodes\<close> are
  the objects the detailed map holds; the model refers to such an object by its key:
  \<open>Own k\<close> in \<open>nodes\<close> is the entry stored under \<open>k\<close>.
\<close>

record resolved = script +
  isSub :: bool
  isExplicitSub :: bool
  explicitSubLevel :: nat
  label :: label_text
  nodes :: "string propval list"

definition ref :: "'a obj \<Rightarrow> string \<Rightarrow> string propval" where
  "ref obj k =
     (case get obj k of
        Own _ \<Rightarrow> Own k
      | Undefined \<Rightarrow> Undefined
      | Inherited txt \<Rightarrow> Inherited txt)"

text \<open>
  Each pass is \<^verbatim>\<open>Object.keys(scripts).reduce(...)\<close> into a fresh object. \<open>detail\<close>
  is the object literal the callback of the first pass builds for the key \<open>key\<close>
  (the callback's \<^verbatim>\<open>name\<close>).
\<close>

definition detail :: "string \<Rightarrow> string obj \<Rightarrow> failure + script" where
  "detail key scripts =
     (case getSubNames key scripts of
        Inl e \<Rightarrow> Inl e
      | Inr subs \<Rightarrow>
          Inr \<lparr>name = key,
               cmd = get scripts key,
               isPre = isLifeCycleScript PRE key scripts,
               isPost = isLifeCycleScript POST key scripts,
               pre = get scripts (PRE @ key),
               post = get scripts (POST @ key),
               subNames = subs\<rparr>)"

definition getDetailedScripts :: "string obj \<Rightarrow> failure + script obj" where
  "getDetailedScripts scripts =
     foldl (\<lambda>acc name.
              case acc of
                Inl e \<Rightarrow> Inl e
              | Inr all \<Rightarrow>
                  (case detail name scripts of
                     Inl e \<Rightarrow> Inl e
                   | Inr s \<Rightarrow> Inr (put all name s)))
           (Inr []) (Object_keys scripts)"

definition gatherAllSubNames :: "script obj \<Rightarrow> string list" where
  "gatherAllSubNames scripts = unique (flatten (map (\<lambda>(n, s). subNames s) scripts))"

definition getLabel :: "bool \<Rightarrow> script \<Rightarrow> label_text" where
  "getLabel sub s =
     Label (if isPre s \<or> isPost s then cyan else if \<not> sub then bold else plain)
           (name s) (ToString (cmd s))"

text \<open>
  The second and third pass read \<^verbatim>\<open>scripts[name]\<close> for the key at hand: they are
  folds over the entries of the object. \<open>resolve\<close> is what the callback of the
  second pass makes of the entry \<open>s\<close> under the key \<open>key\<close> (the callback's
  \<^verbatim>\<open>name\<close>).
\<close>

definition resolve :: "script obj \<Rightarrow> string list \<Rightarrow> string \<Rightarrow> script \<Rightarrow> resolved" where
  "resolve scripts allSubNames key s =
     (let sub = key \<in> set allSubNames;
          nodes0 = map (ref scripts) (subNames s);
          nodes1 = (if truthy (pre s) then ref scripts (PRE @ key) # nodes0 else nodes0);
          nodes2 = (if truthy (post s) then nodes1 @ [ref scripts (POST @ key)] else nodes1)
      in script.extend s
           \<lparr>isSub = sub,
            isExplicitSub = (sub \<and> SEP \<in> set key),
            explicitSubLevel = length (split SEP key) - 1,
            label = getLabel sub s,
            nodes = nodes2\<rparr>)"

definition attachLabelAndNodes :: "script obj \<Rightarrow> resolved obj" where
  "attachLabelAndNodes scripts =
     (let allSubNames = gatherAllSubNames scripts in
      foldl (\<lambda>all (name, s). put all name (resolve scripts allSubNames name s)) [] scripts)"

definition prune :: "resolved obj \<Rightarrow> resolved obj" where
  "prune scripts =
     foldl (\<lambda>all (name, s).
              if \<not> isPre s \<and> \<not> isPost s \<and> \<not> isExplicitSub s then put all name s else all)
           [] scripts"

subsection \<open>The tree handed to archy\<close>

function digits :: "nat \<Rightarrow> string" where
  "digits n = (if n < 10 then [''0123456789'' ! n] else digits (n div 10) @ [''0123456789'' ! (n mod 10)])"
  by pat_completeness auto
termination
  by (relation "measure id") auto

record tree =
  tree_label :: string
  tree_nodes :: "string propval list"

definition archify :: "'a obj \<Rightarrow> bool \<Rightarrow> tree" where
  "archify scripts alpha =
     (let names = Object_keys scripts;
          names = (if alpha then sort names else names)
      in \<lparr>tree_label = digits (length names) @ '' scripts'',
          tree_nodes = map (ref scripts) names\<rparr>)"

record options =
  opt_a :: bool
  opt_alpha :: bool
  opt_p :: bool
  opt_prune :: bool

text \<open>
  \<^verbatim>\<open>main\<close>: \<open>None\<close> is a script map that is null or undefined. The renderer archy is
  outside the module and a parameter of the model; it may throw or, on entries that
  refer to each other in a cycle, not return, so its result is a sum. It receives
  the root and, through the references in \<^verbatim>\<open>nodes\<close>, every entry of the second
  pass, pruned from the root or not: the model hands it the map of all entries and
  the root.
\<close>

definition main ::
  "(resolved obj \<Rightarrow> tree \<Rightarrow> failure + 'r) \<Rightarrow> string obj option \<Rightarrow> options \<Rightarrow> failure + 'r" where
  "main archy scripts opts =
     (case scripts of
        None \<Rightarrow> Inl (Error ''No package.json or no scripts key in this dir'')
      | Some scripts \<Rightarrow>
          (case getDetailedScripts scripts of
             Inl e \<Rightarrow> Inl e
           | Inr detailedScripts \<Rightarrow>
               (let entries = attachLabelAndNodes detailedScripts;
                    detailedScripts =
                      (if opt_p opts \<or> opt_prune opts then prune entries else entries);
                    alpha = (opt_a opts \<or> opt_alpha opts)
                in archy entries (archify detailedScripts alpha))))"

section \<open>The earlier module \<^verbatim>\<open>src/index.js\<close>\<close>

text \<open>
  \<^verbatim>\<open>src/index.js\<close> has the same \<^verbatim>\<open>BUILTINS\<close>, \<^verbatim>\<open>RE_FLAGS\<close>, \<^verbatim>\<open>RE_NAMES\<close>,
  \<^verbatim>\<open>isLifeCycleScript\<close> (with \<^verbatim>\<open>~BUILTINS.indexOf(root)\<close> for
  \<^verbatim>\<open>BUILTINS.includes(root)\<close>), \<^verbatim>\<open>getRunAllScripts\<close>, \<^verbatim>\<open>archify\<close>, the same guard in
  \<^verbatim>\<open>main\<close> and the same \<^verbatim>\<open>unshift\<close> and \<^verbatim>\<open>push\<close> of the hooks in \<^verbatim>\<open>attachNodes\<close>.
  It has no pruning, its \<^verbatim>\<open>RE_NAME\<close> has no colon, and its \<^verbatim>\<open>expandWildcard\<close> knows
  one form of wildcard, \<^verbatim>\<open>name:*\<close>, which it expands without minimatch. The
  functions that differ carry the suffix \<open>_index\<close>.
\<close>

text \<open>\<^verbatim>\<open>RE_NAME = "\\s+([a-z0-9_\\-]+)"\<close>\<close>

definition RE_NAME_index :: regex where
  "RE_NAME_index = Seq (Plus RE_s) (Group (Plus (Class ''abcdefghijklmnopqrstuvwxyz0123456789_-'')))"

definition getRunScripts_index :: "string \<Rightarrow> failure + string option list" where
  "getRunScripts_index c =
     (let re = Plus (lits ''npm run'' RE_NAME_index) in
      case getMatches re c of
        Inl e \<Rightarrow> Inl e
      | Inr matches \<Rightarrow> Inr (unique (map match matches)))"

text \<open>
  \<^verbatim>\<open>sp.pop()\<close> takes the last piece of the split name; \<^verbatim>\<open>flatten\<close> leaves a name
  that is not expanded as it is.
\<close>

definition expandWildcard_index :: "string list \<Rightarrow> string obj \<Rightarrow> string list" where
  "expandWildcard_index nodesNames scripts =
     flatten (map (\<lambda>n.
                (let sp = split CHR '':'' n;
                     star = last sp;
                     sp = butlast sp
                 in if star = ''*'' \<and> length sp = 1
                    then (let name = sp ! 0
                          in filter (\<lambda>k. startsWith k (name @ '':'')) (Object_keys scripts))
                    else [n]))
              nodesNames)"

definition getExistingNodeNames_index :: "string list \<Rightarrow> string obj \<Rightarrow> string list" where
  "getExistingNodeNames_index nodesNames scripts =
     filter (\<lambda>n. truthy (get scripts n)) (expandWildcard_index nodesNames scripts)"

definition getNodesNames_index :: "string \<Rightarrow> string obj \<Rightarrow> failure + string list" where
  "getNodesNames_index key scripts =
     (let c = ToString (get scripts key) in
      case getRunScripts_index c of
        Inl e \<Rightarrow> Inl e
      | Inr runs \<Rightarrow>
          (case getRunAllScripts c of
             Inl e \<Rightarrow> Inl e
           | Inr runAlls \<Rightarrow>
               (let nodesNames = not_null (runs @ map Some runAlls)
                in Inr (getExistingNodeNames_index (unique nodesNames) scripts))))"

section \<open>Flags and names in a command of npm-run-all\<close>

text \<open>
  Membership of a character in a class under the flag \<^verbatim>\<open>i\<close>, and the three classes
  of the patterns: \<^verbatim>\<open>\w\<close>, the class of \<^verbatim>\<open>RE_NAMES\<close> and \<^verbatim>\<open>\s\<close>.
\<close>

definition in_class :: "char list \<Rightarrow> char \<Rightarrow> bool" where
  "in_class cs c = (canonicalize c \<in> set (map canonicalize cs))"

definition word_char :: "char \<Rightarrow> bool" where
  "word_char = in_class ''abcdefghijklmnopqrstuvwxyzABCDEFGHIJKLMNOPQRSTUVWXYZ0123456789_''"

definition name_char :: "char \<Rightarrow> bool" where
  "name_char = in_class ''abcdefghijklmnopqrstuvwxyz0123456789_:-*''"

definition space_char :: "char \<Rightarrow> bool" where
  "space_char = in_class WHITESPACE"

text \<open>
  A flag as \<^verbatim>\<open>RE_FLAGS\<close> reads it: one or more dashes, then one or more word characters
  (\<^verbatim>\<open>-s\<close>, \<^verbatim>\<open>--serial\<close>). A name: a non-empty run of the characters of
  \<^verbatim>\<open>RE_NAMES\<close> that does not start with a dash.
\<close>

definition is_flag :: "string \<Rightarrow> bool" where
  "is_flag f =
     (let d = takeWhile (\<lambda>c. c = CHR ''-'') f; w = dropWhile (\<lambda>c. c = CHR ''-'') f
      in d \<noteq> [] \<and> w \<noteq> [] \<and> list_all word_char w)"

definition is_name :: "string \<Rightarrow> bool" where
  "is_name n = (n \<noteq> [] \<and> take 1 n \<noteq> ''-'' \<and> list_all name_char n)"

section \<open>Predicates used in the proofs\<close>

text \<open>Every match of the pattern sets the capture.\<close>

definition always_caps :: "regex \<Rightarrow> bool" where
  "always_caps r = (\<forall>s cap p. p \<in> set (ms r s cap) \<longrightarrow> snd p \<noteq> None)"

text \<open>Every match of the pattern consumes input and sets the capture.\<close>

definition productive :: "regex \<Rightarrow> bool" where
  "productive re =
     (\<forall>s cap p. p \<in> set (ms re s cap) \<longrightarrow> length (fst p) < length s \<and> snd p \<noteq> None)"

text \<open>
  The pattern matches exactly one character, and the characters it matches are those
  of \<open>P\<close>.
\<close>

definition single :: "regex \<Rightarrow> (char \<Rightarrow> bool) \<Rightarrow> bool" where
  "single r P = (\<not> has_group r \<and> (\<forall>cap. ms r [] cap = []) \<and>
     (\<forall>x s cap. ms r (x # s) cap = (if P x then [(s, cap)] else [])))"

text \<open>
  The body of \<^verbatim>\<open>RE_FLAGS\<close>, the body of \<^verbatim>\<open>RE_NAMES\<close> and the pattern of
  \<^verbatim>\<open>getRunAllScripts\<close>.
\<close>

abbreviation FLAG :: regex where
  "FLAG \<equiv> Seq (Plus RE_s) (Seq (Plus (Lit CHR ''-'')) (Plus RE_w))"

abbreviation NAME :: regex where
  "NAME \<equiv> Seq (Plus RE_s) (Plus (Class ''abcdefghijklmnopqrstuvwxyz0123456789_:-*''))"

abbreviation RUN_ALL :: regex where
  "RUN_ALL \<equiv> Plus (lits ''npm-run-all'' (Seq RE_FLAGS RE_NAMES))"

section \<open>Properties of the utilities and of the matcher\<close>

declare ms.simps(5) [simp del]
declare exec.simps [simp del]
declare getMatches.simps [simp del]

lemma ms_length: "p \<in> set (ms r s cap) \<Longrightarrow> length (fst p) \<le> length s"
proof (induction r s cap arbitrary: p rule: ms.induct)
  case (1 c s cap)
  then show ?case by (auto split: list.splits if_splits)
next
  case (2 cs s cap)
  then show ?case by (auto split: list.splits if_splits)
next
  case (3 r1 r2 s cap)
  from "3.prems" obtain q where q: "q \<in> set (ms r1 s cap)" "p \<in> set (ms r2 (fst q) (snd q))"
    by auto
  from "3.IH"(1)[OF q(1)] "3.IH"(2)[OF q] show ?case by simp
next
  case (4 r s cap)
  from "4.prems" obtain q where q: "q \<in> set (ms r s cap)" "fst p = fst q"
    by auto
  from "4.IH"[OF q(1)] q(2) show ?case by simp
next
  case (5 r s cap)
  from "5.prems" consider "p = (s, cap)"
    | q where "q \<in> set (ms r s (if has_group r then None else cap))"
        "length (fst q) < length s" "p \<in> set (ms (Star r) (fst q) (snd q))"
    by (subst (asm) ms.simps(5)) (auto split: if_splits)
  then show ?case
  proof cases
    case 1
    then show ?thesis by simp
  next
    case 2
    from "5.IH"(2)[OF 2] 2(2) show ?thesis by simp
  qed
next
  case (6 r s cap)
  from "6.prems" obtain q where q: "q \<in> set (ms r s (if has_group r then None else cap))"
    "p \<in> set (ms (Star r) (fst q) (snd q))"
    by auto
  from "6.IH"(1)[OF q(1)] "6.IH"(2)[OF q] show ?case by simp
qed


lemma unique_fold_set:
  "set (foldl (\<lambda>acc x. if x \<in> set acc then acc else acc @ [x]) acc xs) = set acc \<union> set xs"
  by (induction xs arbitrary: acc) auto

lemma unique_fold_distinct:
  "distinct acc \<Longrightarrow> distinct (foldl (\<lambda>acc x. if x \<in> set acc then acc else acc @ [x]) acc xs)"
  by (induction xs arbitrary: acc) auto

lemma set_unique: "set (unique xs) = set xs"
  by (simp add: unique_def unique_fold_set)

lemma distinct_unique: "distinct (unique xs)"
  by (simp add: unique_def unique_fold_distinct)

lemma ms_lits_shorter:
  assumes "p \<in> set (ms (lits (c # str) r) s cap)"
  shows "length (fst p) < length s"
proof (cases s)
  case Nil
  with assms show ?thesis by (simp add: lits_def)
next
  case (Cons x xs)
  with assms have "p \<in> set (ms (foldr (\<lambda>c. Seq (Lit c)) str r) xs cap)"
    by (auto simp: lits_def split: if_splits)
  from ms_length[OF this] Cons show ?thesis by simp
qed

lemma ms_Plus_shorter:
  assumes "p \<in> set (ms (Plus (lits (c # str) r)) s cap)"
  shows "length (fst p) < length s"
proof -
  from assms obtain q where
    q: "q \<in> set (ms (lits (c # str) r) s (if has_group (lits (c # str) r) then None else cap))"
      "p \<in> set (ms (Star (lits (c # str) r)) (fst q) (snd q))"
    by auto
  from ms_lits_shorter[OF q(1)] ms_length[OF q(2)] show ?thesis by simp
qed

lemma always_caps_Group: "always_caps (Group r)"
  by (auto simp: always_caps_def)

lemma always_caps_Seq: "always_caps r2 \<Longrightarrow> always_caps (Seq r1 r2)"
  by (auto simp: always_caps_def)

lemma always_caps_lits: "always_caps r \<Longrightarrow> always_caps (lits str r)"
  by (induction str) (auto simp: lits_def always_caps_Seq)

lemma Star_caps:
  assumes "always_caps r"
  shows "cap \<noteq> None \<Longrightarrow> p \<in> set (ms (Star r) s cap) \<Longrightarrow> snd p \<noteq> None"
proof (induction "length s" arbitrary: s cap rule: less_induct)
  case less
  from less.prems(2) consider "p = (s, cap)"
    | q where "q \<in> set (ms r s (if has_group r then None else cap))"
        "length (fst q) < length s" "p \<in> set (ms (Star r) (fst q) (snd q))"
    by (subst (asm) ms.simps(5)) (auto split: if_splits)
  then show ?case
  proof cases
    case 1
    then show ?thesis using less.prems(1) by simp
  next
    case 2
    from assms 2(1) have "snd q \<noteq> None" unfolding always_caps_def by blast
    with less.hyps[OF 2(2) _ 2(3)] show ?thesis by simp
  qed
qed

lemma always_caps_Plus:
  assumes "always_caps r"
  shows "always_caps (Plus r)"
  unfolding always_caps_def
proof (intro allI impI)
  fix s cap p
  assume p: "p \<in> set (ms (Plus r) s cap)"
  from p obtain q where q: "q \<in> set (ms r s (if has_group r then None else cap))"
    "p \<in> set (ms (Star r) (fst q) (snd q))" by auto
  from assms q(1) have "snd q \<noteq> None" unfolding always_caps_def by blast
  with Star_caps[OF assms] q(2) show "snd p \<noteq> None" by blast
qed

lemma exec_Some:
  "exec re s = Some (m1, rest) \<Longrightarrow>
   \<exists>s'. length s' \<le> length s \<and> (rest, m1) \<in> set (ms re s' None)"
proof (induction re s rule: exec.induct)
  case (1 re s)
  show ?case
  proof (cases "ms re s None")
    case Nil
    with "1.prems" obtain x s' where s: "s = x # s'" and e: "exec re s' = Some (m1, rest)"
      by (subst (asm) exec.simps) (cases s; simp)
    from "1.IH"[OF Nil s e] obtain t where
      "length t \<le> length s'" "(rest, m1) \<in> set (ms re t None)" by blast
    with s show ?thesis by (intro exI[of _ t]) simp
  next
    case (Cons p ps)
    with "1.prems" have "p = (rest, m1)" by (subst (asm) exec.simps) auto
    with Cons show ?thesis by (intro exI[of _ s]) auto
  qed
qed

lemma productive_exec:
  assumes "productive re" "exec re s = Some (m1, rest)"
  shows "length rest < length s \<and> m1 \<noteq> None"
proof -
  from exec_Some[OF assms(2)] obtain s' where
    "length s' \<le> length s" "(rest, m1) \<in> set (ms re s' None)" by blast
  with assms(1) show ?thesis unfolding productive_def by fastforce
qed

lemma getMatches_total:
  assumes "productive re"
  shows "\<exists>matches. getMatches re s = Inr matches \<and> (\<forall>m \<in> set matches. match m \<noteq> None)"
proof (induction "length s" arbitrary: s rule: less_induct)
  case less
  show ?case
  proof (cases "exec re s")
    case None
    then show ?thesis by (subst getMatches.simps) simp
  next
    case (Some a)
    obtain m1 rest where a: "a = (m1, rest)" by (cases a)
    from productive_exec[OF assms Some[unfolded a]] have l: "length rest < length s" "m1 \<noteq> None"
      by simp_all
    from less[OF l(1)] obtain matches where
      "getMatches re rest = Inr matches" "\<forall>m \<in> set matches. match m \<noteq> None" by blast
    with Some a l show ?thesis by (subst getMatches.simps) simp
  qed
qed

lemma productive_run: "productive (Plus (lits ''npm run'' RE_NAME))"
proof -
  have "always_caps (Plus (lits ''npm run'' RE_NAME))"
    unfolding RE_NAME_def
    by (intro always_caps_Plus always_caps_lits always_caps_Seq always_caps_Group)
  then show ?thesis
    unfolding productive_def always_caps_def using ms_Plus_shorter by blast
qed

lemma productive_run_all: "productive (Plus (lits ''npm-run-all'' (Seq RE_FLAGS RE_NAMES)))"
proof -
  have "always_caps (Plus (lits ''npm-run-all'' (Seq RE_FLAGS RE_NAMES)))"
    unfolding RE_NAMES_def
    by (intro always_caps_Plus always_caps_lits always_caps_Seq always_caps_Group)
  then show ?thesis
    unfolding productive_def always_caps_def using ms_Plus_shorter by blast
qed

lemma getRunScripts_total: "\<exists>runs. getRunScripts c = Inr runs \<and> distinct runs"
proof -
  from getMatches_total[OF productive_run] obtain matches where
    "getMatches (Plus (lits ''npm run'' RE_NAME)) c = Inr matches" by blast
  then show ?thesis by (simp add: getRunScripts_def distinct_unique)
qed

lemma clean_spaces_total:
  "\<forall>m \<in> set matches. match m \<noteq> None \<Longrightarrow> \<exists>cmds. clean_spaces matches = Inr cmds"
  by (induction matches) auto

lemma getRunAllScripts_total: "\<exists>names. getRunAllScripts c = Inr names \<and> distinct names"
proof -
  from getMatches_total[OF productive_run_all] obtain matches where
    m: "getMatches (Plus (lits ''npm-run-all'' (Seq RE_FLAGS RE_NAMES))) c = Inr matches"
      "\<forall>m \<in> set matches. match m \<noteq> None" by blast
  from clean_spaces_total[OF m(2)] obtain cmds where "clean_spaces matches = Inr cmds" ..
  with m(1) show ?thesis by (simp add: getRunAllScripts_def distinct_unique)
qed


section \<open>Properties of objects and of the passes\<close>

lemma put_fresh: "k \<notin> set (map fst obj) \<Longrightarrow> put obj k v = obj @ [(k, v)]"
  by (induction obj) auto

lemma set_put: "set (put obj k v) \<subseteq> insert (k, v) (set obj)"
  by (induction obj) (auto split: if_splits)

lemma distinct_put: "distinct (map fst obj) \<Longrightarrow> distinct (map fst (put obj k v))"
proof (induction obj)
  case Nil
  then show ?case by simp
next
  case (Cons a obj)
  have "fst ` set (put obj k v) \<subseteq> insert k (fst ` set obj)"
    using set_put[of obj k v] by force
  with Cons show ?case by (cases a) auto
qed

lemma swapColonAndSlash_twice: "swapColonAndSlash (swapColonAndSlash s) = s"
  by (induction s) (auto simp: swapColonAndSlash_def SWAP_MAP_def)

lemma expandWildcard_filter:
  "expandWildcard n scripts =
     filter (\<lambda>k. minimatch (swapColonAndSlash k) (swapColonAndSlash n)) (Object_keys scripts)"
proof -
  have "map swapColonAndSlash (filter P (map swapColonAndSlash ks))
          = filter (\<lambda>k. P (swapColonAndSlash k)) ks" for P ks
    by (induction ks) (auto simp: swapColonAndSlash_twice)
  then show ?thesis by (simp add: expandWildcard_def Let_def)
qed

lemma set_getExistingSubNames:
  "n \<in> set (getExistingSubNames names scripts) \<Longrightarrow>
   n \<in> set (Object_keys scripts) \<and> truthy (get scripts n)"
  by (auto simp: getExistingSubNames_def expandWildcards_def flatten_def expandWildcard_filter)

lemma getSubNames_total: "\<exists>subs. getSubNames n scripts = Inr subs"
proof -
  obtain runs where "getRunScripts (ToString (get scripts n)) = Inr runs"
    using getRunScripts_total by blast
  moreover obtain runAlls where "getRunAllScripts (ToString (get scripts n)) = Inr runAlls"
    using getRunAllScripts_total by blast
  ultimately show ?thesis by (simp add: getSubNames_def Let_def)
qed

lemma getSubNames_existing:
  assumes "getSubNames n scripts = Inr subs" "k \<in> set subs"
  shows "k \<in> set (Object_keys scripts) \<and> truthy (get scripts k)"
proof -
  from assms(1) obtain names where "subs = getExistingSubNames names scripts"
    by (auto simp: getSubNames_def Let_def split: sum.splits)
  with assms(2) show ?thesis using set_getExistingSubNames by blast
qed

lemma key_Own: "k \<in> set (Object_keys obj) \<Longrightarrow> \<exists>v. get obj k = Own v \<and> (k, v) \<in> set obj"
proof -
  assume "k \<in> set (Object_keys obj)"
  then obtain v where "map_of obj k = Some v"
    by (metis Object_keys_def map_of_eq_None_iff not_None_eq set_map)
  then show ?thesis by (auto simp: get_def dest: map_of_SomeD)
qed

lemma detail_total:
  "\<exists>subs. getSubNames n scripts = Inr subs \<and>
     detail n scripts =
       Inr \<lparr>name = n, cmd = get scripts n,
            isPre = isLifeCycleScript PRE n scripts,
            isPost = isLifeCycleScript POST n scripts,
            pre = get scripts (PRE @ n), post = get scripts (POST @ n),
            subNames = subs\<rparr>"
  using getSubNames_total[of n scripts] by (auto simp: detail_def)

lemma detail_projr: "detail n scripts = Inr (projr (detail n scripts))"
  using detail_total[of n scripts] by auto

lemma getDetailedScripts_fold:
  "distinct (map fst all @ ks) \<Longrightarrow>
   foldl (\<lambda>acc name.
            case acc of
              Inl e \<Rightarrow> Inl e
            | Inr all \<Rightarrow>
                (case detail name scripts of
                   Inl e \<Rightarrow> Inl e
                 | Inr s \<Rightarrow> Inr (put all name s)))
         (Inr all) ks
     = Inr (all @ map (\<lambda>k. (k, projr (detail k scripts))) ks)"
proof (induction ks arbitrary: all)
  case Nil
  then show ?case by simp
next
  case (Cons k ks)
  have d: "detail k scripts = Inr (projr (detail k scripts))" by (rule detail_projr)
  from Cons.prems have f: "k \<notin> set (map fst all)" by auto
  from Cons.prems have "distinct (map fst (all @ [(k, projr (detail k scripts))]) @ ks)" by auto
  from Cons.IH[OF this] show ?case
    by (subst foldl_Cons) (subst d, simp add: put_fresh[OF f])
qed

lemma getDetailedScripts_eq:
  "distinct (Object_keys scripts) \<Longrightarrow>
   getDetailedScripts scripts = Inr (map (\<lambda>k. (k, projr (detail k scripts))) (Object_keys scripts))"
  using getDetailedScripts_fold[of "[]" "Object_keys scripts" scripts]
  by (simp add: getDetailedScripts_def)

lemma foldl_put_entries:
  "distinct (map fst all @ map fst xs) \<Longrightarrow>
   foldl (\<lambda>all (k, s). put all k (f k s)) all xs = all @ map (\<lambda>(k, s). (k, f k s)) xs"
proof (induction xs arbitrary: all)
  case Nil
  then show ?case by simp
next
  case (Cons x xs)
  obtain k s where x: "x = (k, s)" by (cases x)
  from Cons.prems x have f: "k \<notin> set (map fst all)" by auto
  from Cons.prems x have "distinct (map fst (all @ [(k, f k s)]) @ map fst xs)" by auto
  from Cons.IH[OF this] show ?case by (simp add: x put_fresh[OF f])
qed

lemma attachLabelAndNodes_eq:
  "distinct (map fst d) \<Longrightarrow>
   attachLabelAndNodes d = map (\<lambda>(k, s). (k, resolve d (gatherAllSubNames d) k s)) d"
  using foldl_put_entries[of "[]" d "resolve d (gatherAllSubNames d)"]
  by (simp add: attachLabelAndNodes_def Let_def)

lemma ref_Own: "ref obj x = Own y \<Longrightarrow> y = x \<and> x \<in> set (Object_keys obj)"
  by (auto simp: ref_def get_def Object_keys_def split: option.splits dest!: map_of_SomeD intro: rev_image_eqI)

lemma ref_key: "x \<in> set (Object_keys obj) \<Longrightarrow> ref obj x = Own x"
  using key_Own[of x obj] by (auto simp: ref_def)

lemma nodes_resolve:
  "nodes (resolve d G k s) =
     (if truthy (pre s) then [ref d (PRE @ k)] else []) @ map (ref d) (subNames s)
     @ (if truthy (post s) then [ref d (POST @ k)] else [])"
  by (simp add: resolve_def Let_def script.defs)

lemma subNames_resolve: "subNames (resolve d G k s) = subNames s"
  by (simp add: resolve_def Let_def script.defs)

lemma name_resolve: "name (resolve d G k s) = name s"
  by (simp add: resolve_def Let_def script.defs)

lemma PRE_not_inherited: "map_of OBJECT_PROTOTYPE (PRE @ k) = None"
  by (simp add: OBJECT_PROTOTYPE_def PRE_def)

lemma POST_not_inherited: "map_of OBJECT_PROTOTYPE (POST @ k) = None"
  by (simp add: OBJECT_PROTOTYPE_def POST_def)

lemma truthy_PRE: "truthy (get scripts (PRE @ k)) \<Longrightarrow> PRE @ k \<in> set (Object_keys scripts)"
  by (auto simp: get_def PRE_not_inherited Object_keys_def split: option.splits dest!: map_of_SomeD intro: rev_image_eqI)

lemma truthy_POST: "truthy (get scripts (POST @ k)) \<Longrightarrow> POST @ k \<in> set (Object_keys scripts)"
  by (auto simp: get_def POST_not_inherited Object_keys_def split: option.splits dest!: map_of_SomeD intro: rev_image_eqI)

lemma detail_fields:
  "name (projr (detail k scripts)) = k"
  "pre (projr (detail k scripts)) = get scripts (PRE @ k)"
  "post (projr (detail k scripts)) = get scripts (POST @ k)"
  "getSubNames k scripts = Inr (subNames (projr (detail k scripts)))"
  using detail_total[of k scripts] by auto

lemma get_map_entries:
  "get (map (\<lambda>(k, s). (k, f k s)) d) x = (case get d x of Own s \<Rightarrow> Own (f x s) | Undefined \<Rightarrow> Undefined | Inherited t \<Rightarrow> Inherited t)"
proof -
  have "map_of (map (\<lambda>(k, s). (k, f k s)) d) x = map_option (f x) (map_of d x)"
    by (induction d) auto
  then show ?thesis by (auto simp: get_def split: option.splits)
qed

lemma get_map_keys:
  "get (map (\<lambda>k. (k, f k)) ks) x = (if x \<in> set ks then Own (f x) else case map_of OBJECT_PROTOTYPE x of Some t \<Rightarrow> Inherited t | None \<Rightarrow> Undefined)"
proof -
  have "map_of (map (\<lambda>k. (k, f k)) ks) x = (if x \<in> set ks then Some (f x) else None)"
    by (induction ks) auto
  then show ?thesis by (auto simp: get_def split: option.splits)
qed

lemma keys_map_keys: "Object_keys (map (\<lambda>k. (k, f k)) ks) = ks"
  by (simp add: Object_keys_def comp_def)

lemma fst_map_keys: "map fst (map (\<lambda>k. (k, f k)) ks) = ks"
  by (induction ks) auto

lemma fst_map_entries: "map fst (map (\<lambda>(k, s). (k, f k s)) d) = map fst d"
  by (induction d) auto

lemma detailed_resolved:
  assumes "distinct (Object_keys scripts)"
  shows "\<exists>d. getDetailedScripts scripts = Inr d \<and> Object_keys d = Object_keys scripts \<and>
           attachLabelAndNodes d
             = map (\<lambda>k. (k, resolve d (gatherAllSubNames d) k (projr (detail k scripts))))
                   (Object_keys scripts)"
proof -
  define d where "d = map (\<lambda>k. (k, projr (detail k scripts))) (Object_keys scripts)"
  have g: "getDetailedScripts scripts = Inr d"
    unfolding d_def by (rule getDetailedScripts_eq[OF assms])
  have keys: "Object_keys d = Object_keys scripts"
    unfolding d_def by (rule keys_map_keys)
  with assms have "distinct (map fst d)" by (simp add: Object_keys_def)
  from attachLabelAndNodes_eq[OF this]
  have "attachLabelAndNodes d = map (\<lambda>(k, s). (k, resolve d (gatherAllSubNames d) k s)) d" .
  also have "\<dots> = map (\<lambda>k. (k, resolve d (gatherAllSubNames d) k (projr (detail k scripts))))
                   (Object_keys scripts)"
    by (subst (3) d_def) (simp add: comp_def)
  finally show ?thesis using g keys by blast
qed

lemma resolved_entry:
  assumes "distinct (Object_keys scripts)" "k \<in> set (Object_keys scripts)"
  shows "\<exists>d. getDetailedScripts scripts = Inr d \<and> Object_keys d = Object_keys scripts \<and>
           get (attachLabelAndNodes d) k
             = Own (resolve d (gatherAllSubNames d) k (projr (detail k scripts)))"
proof -
  from detailed_resolved[OF assms(1)] obtain d where
    d: "getDetailedScripts scripts = Inr d" "Object_keys d = Object_keys scripts"
      "attachLabelAndNodes d
         = map (\<lambda>k. (k, resolve d (gatherAllSubNames d) k (projr (detail k scripts))))
               (Object_keys scripts)"
    by blast
  from assms(2) have "get (attachLabelAndNodes d) k
          = Own (resolve d (gatherAllSubNames d) k (projr (detail k scripts)))"
    by (simp only: d(3) get_map_keys if_True)
  with d show ?thesis by blast
qed

lemma getDetailedScripts_inv:
  assumes "\<And>k. P (projr (detail k scripts))"
  shows "(\<forall>(k, s) \<in> set all. P s) \<Longrightarrow>
   \<exists>d. foldl (\<lambda>acc name.
            case acc of
              Inl e \<Rightarrow> Inl e
            | Inr all \<Rightarrow>
                (case detail name scripts of
                   Inl e \<Rightarrow> Inl e
                 | Inr s \<Rightarrow> Inr (put all name s)))
         (Inr all) ks = Inr d \<and> (\<forall>(k, s) \<in> set d. P s)"
proof (induction ks arbitrary: all)
  case Nil
  then show ?case by simp
next
  case (Cons k ks)
  have d: "detail k scripts = Inr (projr (detail k scripts))" by (rule detail_projr)
  have "\<forall>(k, s) \<in> set (put all k (projr (detail k scripts))). P s"
    using set_put[of all k "projr (detail k scripts)"] Cons.prems assms by blast
  from Cons.IH[OF this] show ?case
    by (subst foldl_Cons) (subst d, simp)
qed

lemma getDetailedScripts_total: "\<exists>d. getDetailedScripts scripts = Inr d"
  using getDetailedScripts_inv[of "\<lambda>s. True" scripts "[]"]
  by (auto simp: getDetailedScripts_def)



lemma keep_fold_inv:
  "distinct (map fst acc) \<Longrightarrow> (\<forall>(k, s) \<in> set acc. P s) \<Longrightarrow>
   distinct (map fst (foldl (\<lambda>all (name, s). if P s then put all name s else all) acc xs))
   \<and> (\<forall>(k, s) \<in> set (foldl (\<lambda>all (name, s). if P s then put all name s else all) acc xs). P s)"
proof (induction xs arbitrary: acc)
  case Nil
  then show ?case by simp
next
  case (Cons x xs)
  obtain k s where x: "x = (k, s)" by (cases x)
  show ?case
  proof (cases "P s")
    case True
    have "distinct (map fst (put acc k s))" using Cons.prems(1) by (rule distinct_put)
    moreover have "\<forall>(k, s) \<in> set (put acc k s). P s"
      using set_put[of acc k s] Cons.prems(2) True by blast
    ultimately show ?thesis using Cons.IH[of "put acc k s"] True by (simp add: x)
  next
    case False
    then show ?thesis using Cons.IH[OF Cons.prems] by (simp add: x)
  qed
qed

lemma keep_fold_filter:
  "distinct (map fst acc @ map fst xs) \<Longrightarrow>
   foldl (\<lambda>all (name, s). if P s then put all name s else all) acc xs
     = acc @ filter (\<lambda>(k, s). P s) xs"
proof (induction xs arbitrary: acc)
  case Nil
  then show ?case by simp
next
  case (Cons x xs)
  obtain k s where x: "x = (k, s)" by (cases x)
  from Cons.prems x have f: "k \<notin> set (map fst acc)" by auto
  from Cons.prems x have 1: "distinct (map fst (acc @ [(k, s)]) @ map fst xs)" by auto
  from Cons.prems x have 2: "distinct (map fst acc @ map fst xs)" by auto
  from Cons.IH[OF 1] Cons.IH[OF 2] show ?case by (simp add: x put_fresh[OF f])
qed

lemma prune_filter:
  assumes "distinct (Object_keys scripts)"
  shows "prune scripts
           = filter (\<lambda>(k, s). \<not> isPre s \<and> \<not> isPost s \<and> \<not> isExplicitSub s) scripts"
  using keep_fold_filter[of "[]" scripts "\<lambda>s. \<not> isPre s \<and> \<not> isPost s \<and> \<not> isExplicitSub s"] assms
  by (simp add: prune_def Object_keys_def)

section \<open>The first match of a command made of flags and names\<close>

lemma single_Class: "single (Class cs) (in_class cs)"
  by (simp add: single_def in_class_def)

lemma single_Lit: "single (Lit c) (\<lambda>x. canonicalize x = canonicalize c)"
  by (simp add: single_def)

lemma Star_single_stop:
  assumes "single r P" "s = [] \<or> \<not> P (hd s)"
  shows "ms (Star r) s cap = [(s, cap)]"
proof (cases s)
  case Nil
  with assms(1) show ?thesis by (subst ms.simps(5)) (simp add: single_def)
next
  case (Cons x xs)
  with assms show ?thesis by (subst ms.simps(5)) (simp add: single_def)
qed

lemma Star_single_head:
  assumes "single r P" "list_all P w" "s = [] \<or> \<not> P (hd s)"
  shows "\<exists>t. ms (Star r) (w @ s) cap = (s, cap) # t"
  using assms(2)
proof (induction w)
  case Nil
  then show ?case using Star_single_stop[OF assms(1,3)] by simp
next
  case (Cons x w)
  then obtain t where t: "ms (Star r) (w @ s) cap = (s, cap) # t" by auto
  from Cons.prems assms(1) have "ms r (x # w @ s) cap = [(w @ s, cap)]" "\<not> has_group r"
    by (simp_all add: single_def)
  with t show ?case by (subst ms.simps(5)) simp
qed

lemma Plus_single_head:
  assumes "single r P" "list_all P w" "w \<noteq> []" "s = [] \<or> \<not> P (hd s)"
  shows "\<exists>t. ms (Plus r) (w @ s) cap = (s, cap) # t"
proof -
  from assms(3) obtain x w' where w: "w = x # w'" by (cases w) auto
  with assms(2) have x: "P x" and w': "list_all P w'" by simp_all
  from Star_single_head[OF assms(1) w' assms(4)] obtain t where
    t: "ms (Star r) (w' @ s) cap = (s, cap) # t" by blast
  from x assms(1) have "ms r (x # w' @ s) cap = [(w' @ s, cap)]" "\<not> has_group r"
    by (simp_all add: single_def)
  with t w show ?thesis by simp
qed

lemma Plus_single_one:
  assumes "single r P" "P x" "s = [] \<or> \<not> P (hd s)"
  shows "ms (Plus r) (x # s) cap = [(s, cap)]"
proof -
  from assms(1,2) have "ms r (x # s) cap = [(s, cap)]" "\<not> has_group r"
    by (simp_all add: single_def)
  with Star_single_stop[OF assms(1,3)] show ?thesis by simp
qed

lemma Plus_single_fail:
  assumes "single r P" "s = [] \<or> \<not> P (hd s)"
  shows "ms (Plus r) s cap = []"
  using assms by (cases s) (simp_all add: single_def)

lemma Seq_head:
  assumes "ms r1 s cap = (s1, c1) # t1" "ms r2 s1 c1 = p # t2"
  shows "\<exists>t. ms (Seq r1 r2) s cap = p # t"
  using assms by simp

lemma ms_lits: "ms (lits str r) (str @ s) cap = ms r s cap"
  by (induction str) (simp_all add: lits_def)

lemma ms_lits_Nil: "str \<noteq> [] \<Longrightarrow> ms (lits str r) [] cap = []"
  by (cases str) (simp_all add: lits_def)


lemma Star_stop:
  assumes "ms r s (if has_group r then None else cap) = []"
  shows "ms (Star r) s cap = [(s, cap)]"
  using assms by (subst ms.simps(5)) simp

lemma Star_head_step:
  assumes "ms r s (if has_group r then None else cap) = (s1, c1) # t1"
    and "length s1 < length s"
    and "ms (Star r) s1 c1 = p # t"
  shows "\<exists>t'. ms (Star r) s cap = p # t'"
  using assms by (subst ms.simps(5)) simp

lemma Plus_head_step:
  assumes "ms r s (if has_group r then None else cap) = (s1, c1) # t1"
    and "ms (Star r) s1 c1 = p # t"
  shows "\<exists>t'. ms (Plus r) s cap = p # t'"
  using assms by simp

lemma Group_head:
  assumes "ms r s cap = (s1, c1) # t1"
  shows "\<exists>t'. ms (Group r) s cap = (s1, Some (take (length s - length s1) s)) # t'"
  using assms by simp

declare ms.simps [simp del]

lemma canonicalize_cases:
  "canonicalize c = c \<or> c \<in> set ''abcdefghijklmnopqrstuvwxyz''"
  by (auto simp: canonicalize_def split: option.splits dest!: map_of_SomeD)

lemma space_not_word: "\<not> word_char CHR '' ''"
  by (simp add: word_char_def in_class_def canonicalize_def)

lemma space_not_name: "\<not> name_char CHR '' ''"
  by (simp add: name_char_def in_class_def canonicalize_def)

lemma space_is_space: "space_char CHR '' ''"
  by (simp add: space_char_def in_class_def canonicalize_def WHITESPACE_def)

lemma dash_not_space: "\<not> space_char CHR ''-''"
  by (simp add: space_char_def in_class_def canonicalize_def WHITESPACE_def)

lemma dash_not_word: "\<not> word_char CHR ''-''"
  by (simp add: word_char_def in_class_def canonicalize_def)

lemma canonicalize_dash: "(canonicalize x = canonicalize CHR ''-'') = (x = CHR ''-'')"
  by (auto simp: canonicalize_def split: option.splits dest!: map_of_SomeD)

lemma name_not_space: "name_char c \<Longrightarrow> \<not> space_char c"
proof -
  have "set (map canonicalize ''abcdefghijklmnopqrstuvwxyz0123456789_:-*'')
          \<inter> set (map canonicalize WHITESPACE) = {}"
    by (simp add: canonicalize_def WHITESPACE_def)
  then show "name_char c \<Longrightarrow> \<not> space_char c"
    unfolding name_char_def space_char_def in_class_def by blast
qed

lemma single_s: "single RE_s space_char"
  unfolding RE_s_def space_char_def by (rule single_Class)

lemma single_w: "single RE_w word_char"
  unfolding RE_w_def word_char_def by (rule single_Class)

lemma single_dash: "single (Lit CHR ''-'') (\<lambda>x. x = CHR ''-'')"
  using single_Lit[of "CHR ''-''"] by (simp add: canonicalize_dash)

lemma single_names: "single (Class ''abcdefghijklmnopqrstuvwxyz0123456789_:-*'') name_char"
  unfolding name_char_def by (rule single_Class)

lemma no_group_FLAG: "\<not> has_group FLAG"
  by (simp add: RE_s_def RE_w_def)

lemma no_group_NAME: "\<not> has_group NAME"
  by (simp add: RE_s_def)

lemma Seq_fail: "ms r1 s cap = [(s1, c1)] \<Longrightarrow> ms r2 s1 c1 = [] \<Longrightarrow> ms (Seq r1 r2) s cap = []"
  by (simp add: ms.simps(3))

lemma Seq_fail0: "ms r1 s cap = [] \<Longrightarrow> ms (Seq r1 r2) s cap = []"
  by (simp add: ms.simps(3))

text \<open>One flag, followed by a space or by the end of the input.\<close>

lemma flag_head:
  assumes "is_flag f" "s = [] \<or> hd s = CHR '' ''"
  shows "\<exists>t. ms FLAG (CHR '' '' # f @ s) cap = (s, cap) # t"
proof -
  define d where "d = takeWhile (\<lambda>c. c = CHR ''-'') f"
  define w where "w = dropWhile (\<lambda>c. c = CHR ''-'') f"
  from assms(1) have f: "f = d @ w" "d \<noteq> []" "w \<noteq> []" "list_all word_char w"
    by (simp_all add: is_flag_def Let_def d_def w_def)
  have dd: "list_all (\<lambda>x. x = CHR ''-'') d"
    unfolding d_def list_all_iff using set_takeWhileD by fastforce
  from f(2) dd have hd_d: "hd (d @ w @ s) = CHR ''-''" by (cases d) auto
  have a: "ms (Plus RE_s) (CHR '' '' # d @ w @ s) cap = [(d @ w @ s, cap)]"
    using Plus_single_one[OF single_s space_is_space, of "d @ w @ s" cap] hd_d dash_not_space
    by simp
  from f(3,4) have "\<not> (hd (w @ s) = CHR ''-'')" using dash_not_word by (cases w) auto
  with Plus_single_head[OF single_dash dd f(2), of "w @ s" cap]
  obtain t1 where b: "ms (Plus (Lit CHR ''-'')) (d @ w @ s) cap = (w @ s, cap) # t1" by auto
  from assms(2) have "s = [] \<or> \<not> word_char (hd s)" using space_not_word by auto
  from Plus_single_head[OF single_w f(4,3) this, of cap]
  obtain t2 where c: "ms (Plus RE_w) (w @ s) cap = (s, cap) # t2" by auto
  from Seq_head[OF b c] obtain t3 where
    "ms (Seq (Plus (Lit CHR ''-'')) (Plus RE_w)) (d @ w @ s) cap = (s, cap) # t3" by blast
  from Seq_head[OF a this] show ?thesis by (simp add: f(1))
qed

text \<open>No flag starts where a name stands.\<close>

lemma flag_fails_at_name:
  assumes "is_name n"
  shows "ms FLAG (CHR '' '' # n @ s) cap = []"
proof -
  from assms obtain x n' where n: "n = x # n'" "x \<noteq> CHR ''-''" "name_char x"
    by (cases n) (auto simp: is_name_def)
  from n(3) have "\<not> space_char x" by (rule name_not_space)
  with Plus_single_one[OF single_s space_is_space, of "n @ s" cap] n(1)
  have a: "ms (Plus RE_s) (CHR '' '' # n @ s) cap = [(n @ s, cap)]" by simp
  have "ms (Plus (Lit CHR ''-'')) (n @ s) cap = []"
    using Plus_single_fail[OF single_dash, of "n @ s" cap] n(1,2) by simp
  then have "ms (Seq (Plus (Lit CHR ''-'')) (Plus RE_w)) (n @ s) cap = []" by (rule Seq_fail0)
  with a show ?thesis by (rule Seq_fail)
qed

lemma flags_head:
  assumes "list_all is_flag flags" "is_name n"
  shows "\<exists>t. ms (Star FLAG) (concat (map ((#) CHR '' '') flags) @ CHR '' '' # n @ s) cap
           = (CHR '' '' # n @ s, cap) # t"
  using assms(1)
proof (induction flags)
  case Nil
  have "ms FLAG (CHR '' '' # n @ s) (if has_group FLAG then None else cap) = []"
    by (rule flag_fails_at_name[OF assms(2)])
  from Star_stop[OF this] show ?case by simp
next
  case (Cons f flags)
  let ?rest = "concat (map ((#) CHR '' '') flags) @ CHR '' '' # n @ s"
  from Cons obtain t where t: "ms (Star FLAG) ?rest cap = (CHR '' '' # n @ s, cap) # t"
    by auto
  have "?rest = [] \<or> hd ?rest = CHR '' ''" by (cases flags) auto
  from flag_head[OF _ this, of f "if has_group FLAG then None else cap"] Cons.prems
  obtain t1 where
    "ms FLAG (CHR '' '' # f @ ?rest) (if has_group FLAG then None else cap) = (?rest, cap) # t1"
    using no_group_FLAG by auto
  from Star_head_step[OF this _ t] show ?case by simp
qed

text \<open>One name, followed by a space or by the end of the input.\<close>

lemma name_head:
  assumes "is_name n" "s = [] \<or> hd s = CHR '' ''"
  shows "\<exists>t. ms NAME (CHR '' '' # n @ s) cap = (s, cap) # t"
proof -
  from assms(1) obtain x n' where n: "n = x # n'" "name_char x" "list_all name_char n" "n \<noteq> []"
    by (cases n) (auto simp: is_name_def)
  from n(2) have "\<not> space_char x" by (rule name_not_space)
  with Plus_single_one[OF single_s space_is_space, of "n @ s" cap] n(1)
  have a: "ms (Plus RE_s) (CHR '' '' # n @ s) cap = [(n @ s, cap)]" by simp
  from assms(2) have "s = [] \<or> \<not> name_char (hd s)" using space_not_name by auto
  from Plus_single_head[OF single_names n(3,4) this, of cap] obtain t where
    "ms (Plus (Class ''abcdefghijklmnopqrstuvwxyz0123456789_:-*'')) (n @ s) cap = (s, cap) # t"
    by blast
  from Seq_head[OF a this] show ?thesis .
qed

lemma NAME_Nil: "ms NAME [] cap = []"
proof -
  have "ms (Plus RE_s) [] cap = []" using Plus_single_fail[OF single_s, of "[]" cap] by simp
  then show ?thesis by (rule Seq_fail0)
qed

lemma names_Star_head:
  assumes "list_all is_name names"
  shows "\<exists>t. ms (Star NAME) (concat (map ((#) CHR '' '') names)) cap = ([], cap) # t"
  using assms
proof (induction names)
  case Nil
  have "ms NAME [] (if has_group NAME then None else cap) = []" by (rule NAME_Nil)
  from Star_stop[OF this] show ?case by simp
next
  case (Cons n names)
  let ?rest = "concat (map ((#) CHR '' '') names)"
  from Cons obtain t where t: "ms (Star NAME) ?rest cap = ([], cap) # t" by auto
  have "?rest = [] \<or> hd ?rest = CHR '' ''" by (cases names) auto
  from name_head[OF _ this, of n "if has_group NAME then None else cap"] Cons.prems
  obtain t1 where
    "ms NAME (CHR '' '' # n @ ?rest) (if has_group NAME then None else cap) = (?rest, cap) # t1"
    using no_group_NAME by auto
  from Star_head_step[OF this _ t] show ?case by simp
qed

lemma names_head:
  assumes "list_all is_name names" "names \<noteq> []"
  shows "\<exists>t. ms RE_NAMES (concat (map ((#) CHR '' '') names)) cap
           = ([], Some (concat (map ((#) CHR '' '') names))) # t"
proof -
  from assms(2) obtain n ns where ns: "names = n # ns" by (cases names) auto
  let ?rest = "concat (map ((#) CHR '' '') ns)"
  from assms(1) ns have n: "is_name n" "list_all is_name ns" by simp_all
  from names_Star_head[OF n(2), of cap] obtain t where t: "ms (Star NAME) ?rest cap = ([], cap) # t"
    by blast
  have "?rest = [] \<or> hd ?rest = CHR '' ''" by (cases ns) auto
  from name_head[OF n(1) this, of "if has_group NAME then None else cap"]
  obtain t1 where
    "ms NAME (CHR '' '' # n @ ?rest) (if has_group NAME then None else cap) = (?rest, cap) # t1"
    using no_group_NAME by auto
  from Plus_head_step[OF this t] obtain t2 where
    "ms (Plus NAME) (CHR '' '' # n @ ?rest) cap = ([], cap) # t2" by blast
  from Group_head[OF this] show ?thesis by (simp add: RE_NAMES_def ns)
qed

lemma split_not_Nil: "split sep s \<noteq> []"
  by (induction s) (auto split: list.splits)

lemma split_no_sep: "sep \<notin> set n \<Longrightarrow> split sep (n @ s) = (n @ hd (split sep s)) # tl (split sep s)"
proof (induction n)
  case Nil
  then show ?case using split_not_Nil[of sep s] by simp
next
  case (Cons c n)
  then show ?case using split_not_Nil[of sep "n @ s"] by (auto split: list.splits)
qed

lemma split_join:
  "\<forall>n \<in> set (n # ns). sep \<notin> set n \<Longrightarrow>
   split sep (n @ concat (map ((#) sep) ns)) = n # ns"
proof (induction ns arbitrary: n)
  case Nil
  then show ?case using split_no_sep[of sep n "[]"] by simp
next
  case (Cons m ns)
  from Cons.prems have "\<forall>n \<in> set (m # ns). sep \<notin> set n" by simp
  from Cons.IH[OF this] have "split sep (m @ concat (map ((#) sep) ns)) = m # ns" .
  with Cons.prems split_no_sep[of sep n "sep # m @ concat (map ((#) sep) ns)"]
  show ?case by simp
qed

lemma trim_core:
  assumes "s \<noteq> []" "hd s \<notin> set WHITESPACE" "last s \<notin> set WHITESPACE"
  shows "trim (CHR '' '' # s) = s"
proof -
  from assms(1,2) have a: "dropWhile (\<lambda>c. c \<in> set WHITESPACE) (CHR '' '' # s) = s"
    by (cases s) (auto simp: WHITESPACE_def)
  from assms(1,3) have "dropWhile (\<lambda>c. c \<in> set WHITESPACE) (rev s) = rev s"
    by (cases s rule: rev_cases) auto
  with a show ?thesis by (simp add: trim_def)
qed

lemma name_char_not_whitespace: "name_char c \<Longrightarrow> c \<notin> set WHITESPACE"
proof
  assume "name_char c" "c \<in> set WHITESPACE"
  then have "space_char c" by (simp add: space_char_def in_class_def)
  with \<open>name_char c\<close> show False using name_not_space by blast
qed

lemma is_name_chars: "is_name n \<Longrightarrow> c \<in> set n \<Longrightarrow> c \<notin> set WHITESPACE"
  using name_char_not_whitespace by (auto simp: is_name_def list_all_iff)

lemma last_names:
  assumes "list_all is_name (n # ns)"
  shows "last (n @ concat (map ((#) CHR '' '') ns)) \<notin> set WHITESPACE"
  using assms
proof (induction ns arbitrary: n)
  case Nil
  then have "n \<noteq> []" by (simp add: is_name_def)
  with Nil show ?case using is_name_chars[of n "last n"] by simp
next
  case (Cons m ns)
  then have "m \<noteq> []" by (simp add: is_name_def)
  from Cons.prems have "list_all is_name (m # ns)" by simp
  from Cons.IH[OF this] \<open>m \<noteq> []\<close> show ?case by simp
qed

lemma trim_names:
  assumes "list_all is_name (n # ns)"
  shows "trim (concat (map ((#) CHR '' '') (n # ns))) = n @ concat (map ((#) CHR '' '') ns)"
proof -
  from assms have n: "n \<noteq> []" "is_name n" by (simp_all add: is_name_def)
  then have "hd (n @ concat (map ((#) CHR '' '') ns)) \<notin> set WHITESPACE"
    using is_name_chars[of n "hd n"] by simp
  from trim_core[OF _ this last_names[OF assms]] n(1) show ?thesis by simp
qed

lemma clean_names:
  assumes "list_all is_name names" "names \<noteq> []"
  shows "filter (\<lambda>x. x \<noteq> []) (split CHR '' '' (trim (concat (map ((#) CHR '' '') names)))) = names"
proof -
  from assms(2) obtain n ns where ns: "names = n # ns" by (cases names) auto
  have "\<forall>m \<in> set (n # ns). CHR '' '' \<notin> set m"
    using assms(1) ns is_name_chars by (fastforce simp: list_all_iff WHITESPACE_def)
  from split_join[OF this] trim_names[OF assms(1)[unfolded ns]]
  have "split CHR '' '' (trim (concat (map ((#) CHR '' '') names))) = names" by (simp add: ns)
  moreover from assms(1) have "\<forall>m \<in> set names. m \<noteq> []" by (auto simp: is_name_def list_all_iff)
  ultimately show ?thesis by simp
qed

lemma run_all_head:
  assumes "list_all is_flag flags" "list_all is_name names" "names \<noteq> []"
  shows "\<exists>t. ms RUN_ALL
             (''npm-run-all'' @ concat (map ((#) CHR '' '') flags) @ concat (map ((#) CHR '' '') names))
             None
           = ([], Some (concat (map ((#) CHR '' '') names))) # t"
proof -
  let ?F = "concat (map ((#) CHR '' '') flags)"
  let ?N = "concat (map ((#) CHR '' '') names)"
  let ?Y = "lits ''npm-run-all'' (Seq RE_FLAGS RE_NAMES)"
  from assms(3) obtain n ns where ns: "names = n # ns" by (cases names) auto
  with assms(2) have n: "is_name n" by simp
  from flags_head[OF assms(1) n, of "concat (map ((#) CHR '' '') ns)" None] obtain t1 where
    a: "ms RE_FLAGS (?F @ ?N) None = (?N, None) # t1"
    by (auto simp: ns RE_FLAGS_def)
  from names_head[OF assms(2,3), of None] obtain t2 where
    b: "ms RE_NAMES ?N None = ([], Some ?N) # t2" by blast
  from Seq_head[OF a b] obtain t3 where
    "ms (Seq RE_FLAGS RE_NAMES) (?F @ ?N) None = ([], Some ?N) # t3" by blast
  then have c: "ms ?Y (''npm-run-all'' @ ?F @ ?N) (if has_group ?Y then None else None)
                  = ([], Some ?N) # t3"
    by (simp only: ms_lits if_cancel)
  have "ms ?Y [] (if has_group ?Y then None else Some ?N) = []"
    by (rule ms_lits_Nil) simp
  from Plus_head_step[OF c Star_stop[OF this]] show ?thesis by blast
qed

lemma run_all_Nil: "ms RUN_ALL [] None = []"
proof -
  have "ms (lits ''npm-run-all'' (Seq RE_FLAGS RE_NAMES)) [] c = []" for c
    by (rule ms_lits_Nil) simp
  then show ?thesis by (simp add: ms.simps(6))
qed

lemma getMatches_run_all:
  assumes "list_all is_flag flags" "list_all is_name names" "names \<noteq> []"
  shows "getMatches RUN_ALL
             (''npm-run-all'' @ concat (map ((#) CHR '' '') flags) @ concat (map ((#) CHR '' '') names))
           = Inr [\<lparr>match = Some (concat (map ((#) CHR '' '') names)), index = None\<rparr>]"
proof -
  from run_all_head[OF assms] obtain t where
    "ms RUN_ALL
       (''npm-run-all'' @ concat (map ((#) CHR '' '') flags) @ concat (map ((#) CHR '' '') names))
       None
     = ([], Some (concat (map ((#) CHR '' '') names))) # t" by blast
  then have e: "exec RUN_ALL
       (''npm-run-all'' @ concat (map ((#) CHR '' '') flags) @ concat (map ((#) CHR '' '') names))
     = Some (Some (concat (map ((#) CHR '' '') names)), [])"
    by (subst exec.simps) simp
  have "exec RUN_ALL [] = None" by (subst exec.simps) (simp add: run_all_Nil)
  then have "getMatches RUN_ALL [] = Inr []" by (subst getMatches.simps) simp
  with e show ?thesis by (subst getMatches.simps) simp
qed

section \<open>The claims\<close>

subsection \<open>C1: the entry point and a missing script map\<close>

text \<open>
  C1 (as amended). Called with a script map that is null or undefined, \<^verbatim>\<open>main\<close>
  throws the error "No package.json or no scripts key in this dir", whatever the
  options. A script map that is present is never refused: \<^verbatim>\<open>main\<close> builds the tree
  and returns what the renderer makes of it, and for the empty map the tree is the
  root labelled "0 scripts" without nodes.
\<close>

theorem main_absent_scripts:
  "main archy None opts = Inl (Error ''No package.json or no scripts key in this dir'')
   \<and> (\<exists>entries root. main archy (Some scripts) opts = archy entries root)
   \<and> main archy (Some []) opts = archy [] \<lparr>tree_label = ''0 scripts'', tree_nodes = []\<rparr>"
proof (intro conjI)
  show "main archy None opts = Inl (Error ''No package.json or no scripts key in this dir'')"
    by (simp add: main_def)
  from getDetailedScripts_total obtain d where "getDetailedScripts scripts = Inr d" by blast
  then show "\<exists>entries root. main archy (Some scripts) opts = archy entries root"
    by (simp add: main_def Let_def) blast
  show "main archy (Some []) opts = archy [] \<lparr>tree_label = ''0 scripts'', tree_nodes = []\<rparr>"
    by (simp add: main_def getDetailedScripts_def attachLabelAndNodes_def prune_def archify_def
        Object_keys_def Let_def)
qed

text \<open>
  The claim as stated fails at \<^verbatim>\<open>main({}, {})\<close>: the guard \<^verbatim>\<open>!scripts\<close> lets the
  empty object pass, and the renderer is called with the tree of no scripts. Here the
  renderer is one that returns what it is given.
\<close>

theorem main_empty_scripts_counterexample:
  "main (curry Inr) (Some [])
       \<lparr>opt_a = False, opt_alpha = False, opt_p = False, opt_prune = False\<rparr>
     = Inr ([], \<lparr>tree_label = ''0 scripts'', tree_nodes = []\<rparr>)"
  by (simp add: main_def getDetailedScripts_def attachLabelAndNodes_def prune_def archify_def
        Object_keys_def Let_def)

subsection \<open>C2: duplicates among the sub-script names\<close>

text \<open>
  C2. The claim asks that the list \<^verbatim>\<open>getSubNames\<close> computes has no duplicates, also
  when a wildcard expands to a name that the command references directly.
  \<^verbatim>\<open>unique\<close> runs before the wildcards are expanded and not after: for the
  command \<^verbatim>\<open>npm-run-all test:* test:lint\<close> the list holds \<^verbatim>\<open>test:lint\<close> twice.
\<close>

theorem getSubNames_duplicate:
  "getSubNames ''test''
     [(''test:lint'', ''eslint .''), (''test:unit'', ''mocha''),
      (''test'', ''npm-run-all test:* test:lint'')]
     = Inr [''test:lint'', ''test:unit'', ''test:lint'']"
  by code_simp

subsection \<open>C3: wildcard expansion\<close>

text \<open>
  C3. For the scripts \<^verbatim>\<open>test:lint\<close>, \<^verbatim>\<open>test:unit\<close> and \<^verbatim>\<open>build\<close>, whatever their
  commands, \<^verbatim>\<open>expandWildcard\<close> expands \<^verbatim>\<open>test:*\<close> to \<^verbatim>\<open>test:lint\<close> and
  \<^verbatim>\<open>test:unit\<close>, in the order of the keys; with the further script
  \<^verbatim>\<open>test:unit:fast\<close> it expands \<^verbatim>\<open>test:**\<close> to a list that includes this deeper
  name as well.
\<close>

theorem expandWildcard_test:
  "expandWildcard ''test:*'' [(''test:lint'', c1), (''test:unit'', c2), (''build'', c3)]
     = [''test:lint'', ''test:unit'']
   \<and> expandWildcard ''test:**''
         [(''test:lint'', c1), (''test:unit'', c2), (''build'', c3), (''test:unit:fast'', c4)]
     = [''test:lint'', ''test:unit'', ''test:unit:fast'']"
  by (simp add: expandWildcard_def Object_keys_def swapColonAndSlash_def SWAP_MAP_def
      minimatch_def parse_def dotted_def)

text \<open>
  With the deeper script in the map, the one-level pattern still yields the two
  names of the first level only.
\<close>

lemma expandWildcard_one_level:
  "expandWildcard ''test:*''
         [(''test:lint'', c1), (''test:unit'', c2), (''build'', c3), (''test:unit:fast'', c4)]
     = [''test:lint'', ''test:unit'']"
  by (simp add: expandWildcard_def Object_keys_def swapColonAndSlash_def SWAP_MAP_def
      minimatch_def parse_def dotted_def)

subsection \<open>C4: lifecycle scripts\<close>

text \<open>
  C4 (as amended). For the prefixes \<^verbatim>\<open>pre\<close> and \<^verbatim>\<open>post\<close>, every name and every
  script map: when the rest of the name after the prefix is not the name of a member
  that every object inherits, \<^verbatim>\<open>isLifeCycleScript\<close> is true if and only if the name
  starts with the prefix and the rest either is a key of the map whose command is not
  the empty string, or is one of the built-ins. When the empty string is not a key of
  the map, the bare prefix is not a lifecycle script.
\<close>

theorem isLifeCycleScript_iff:
  assumes "prefix = PRE \<or> prefix = POST"
    and "distinct (Object_keys scripts)"
  shows "(drop (length prefix) n \<notin> set (map fst OBJECT_PROTOTYPE) \<longrightarrow>
            isLifeCycleScript prefix n scripts
              = (startsWith n prefix
                 \<and> ((\<exists>c. (drop (length prefix) n, c) \<in> set scripts \<and> c \<noteq> [])
                    \<or> drop (length prefix) n \<in> set BUILTINS)))
         \<and> ([] \<notin> set (Object_keys scripts) \<longrightarrow> \<not> isLifeCycleScript prefix prefix scripts)"
proof (intro conjI impI)
  have own: "truthy (get scripts r) = (\<exists>c. (r, c) \<in> set scripts \<and> c \<noteq> [])"
    if "r \<notin> set (map fst OBJECT_PROTOTYPE)" for r
  proof -
    from that have "map_of OBJECT_PROTOTYPE r = None" by (simp add: map_of_eq_None_iff)
    then have "truthy (get scripts r) = (\<exists>c. map_of scripts r = Some c \<and> c \<noteq> [])"
      by (auto simp: get_def split: option.splits)
    moreover have "(map_of scripts r = Some c) = ((r, c) \<in> set scripts)" for c
      using assms(2) by (simp add: Object_keys_def)
    ultimately show ?thesis by simp
  qed
  show "isLifeCycleScript prefix n scripts
              = (startsWith n prefix
                 \<and> ((\<exists>c. (drop (length prefix) n, c) \<in> set scripts \<and> c \<noteq> [])
                    \<or> drop (length prefix) n \<in> set BUILTINS))"
    if "drop (length prefix) n \<notin> set (map fst OBJECT_PROTOTYPE)"
    using own[OF that] by (simp add: isLifeCycleScript_def Let_def)
  show "\<not> isLifeCycleScript prefix prefix scripts" if "[] \<notin> set (Object_keys scripts)"
  proof -
    have "[] \<notin> set (map fst OBJECT_PROTOTYPE)" by (simp add: OBJECT_PROTOTYPE_def)
    from own[OF this] that have "\<not> truthy (get scripts [])"
      by (force simp: Object_keys_def)
    then show ?thesis by (simp add: isLifeCycleScript_def Let_def BUILTINS_def)
  qed
qed

text \<open>
  The theorem at the scripts \<^verbatim>\<open>build\<close> and \<^verbatim>\<open>prebuild\<close>: \<^verbatim>\<open>prebuild\<close> is a
  lifecycle script, \<^verbatim>\<open>prelint\<close> and the bare \<^verbatim>\<open>pre\<close> are not.
\<close>

theorem isLifeCycleScript_iff_witness:
  "isLifeCycleScript PRE ''prebuild'' [(''build'', ''tsc''), (''prebuild'', ''rimraf dist'')]
   \<and> \<not> isLifeCycleScript PRE ''prelint'' [(''build'', ''tsc''), (''prebuild'', ''rimraf dist'')]
   \<and> \<not> isLifeCycleScript PRE PRE [(''build'', ''tsc''), (''prebuild'', ''rimraf dist'')]"
proof -
  let ?S = "[(''build'', ''tsc''), (''prebuild'', ''rimraf dist'')]"
  have p: "PRE = PRE \<or> PRE = POST" by simp
  have d: "distinct (Object_keys ?S)" by (simp add: Object_keys_def)
  have i: "drop (length PRE) ''prebuild'' \<notin> set (map fst OBJECT_PROTOTYPE)"
    "drop (length PRE) ''prelint'' \<notin> set (map fst OBJECT_PROTOTYPE)"
    by (simp_all add: PRE_def OBJECT_PROTOTYPE_def)
  have e: "[] \<notin> set (Object_keys ?S)" by (simp add: Object_keys_def)
  from isLifeCycleScript_iff[OF p d, of "''prebuild''"] isLifeCycleScript_iff[OF p d, of "''prelint''"] i e
  show ?thesis by (simp add: startsWith_def PRE_def BUILTINS_def)
qed

text \<open>
  The claim as stated fails where the rest of the name is a key whose command is the
  empty string: \<^verbatim>\<open>scripts[root]\<close> is then falsy, and \<^verbatim>\<open>prebuild\<close> is not a
  lifecycle script although \<^verbatim>\<open>build\<close> is a key. The two conditions of the amended
  claim are needed as well: with a command under the empty key the bare prefix is a
  lifecycle script, and \<^verbatim>\<open>preconstructor\<close> is one in every script map, since every
  object inherits a member \<^verbatim>\<open>constructor\<close>.
\<close>

theorem isLifeCycleScript_counterexample:
  "startsWith ''prebuild'' PRE
   \<and> drop (length PRE) ''prebuild'' \<in> set (Object_keys [(''build'', []), (''prebuild'', ''rimraf dist'')])
   \<and> \<not> isLifeCycleScript PRE ''prebuild'' [(''build'', []), (''prebuild'', ''rimraf dist'')]
   \<and> isLifeCycleScript PRE PRE [([], ''echo''), (''pre'', ''true'')]
   \<and> drop (length PRE) ''preconstructor'' \<notin> set (Object_keys [(''preconstructor'', ''true'')])
   \<and> drop (length PRE) ''preconstructor'' \<notin> set BUILTINS
   \<and> isLifeCycleScript PRE ''preconstructor'' [(''preconstructor'', ''true'')]"
  by (simp add: isLifeCycleScript_def startsWith_def PRE_def Object_keys_def get_def
      OBJECT_PROTOTYPE_def BUILTINS_def)

subsection \<open>C5: sub-script names are keys of the script map\<close>

text \<open>
  C5. For every script map and every name, \<^verbatim>\<open>getSubNames\<close> returns (it never
  throws and its loops end) and every name it returns is a key of the script map; so
  the first pass returns, and the \<^verbatim>\<open>subNames\<close> of every entry it builds are keys of
  the script map.
\<close>

theorem subNames_are_keys:
  "(\<exists>subs. getSubNames n scripts = Inr subs \<and> set subs \<subseteq> set (Object_keys scripts))
   \<and> (\<exists>d. getDetailedScripts scripts = Inr d
         \<and> (\<forall>(k, s) \<in> set d. set (subNames s) \<subseteq> set (Object_keys scripts)))"
proof
  from getSubNames_total obtain subs where s: "getSubNames n scripts = Inr subs" by blast
  with getSubNames_existing[OF s] show
    "\<exists>subs. getSubNames n scripts = Inr subs \<and> set subs \<subseteq> set (Object_keys scripts)"
    by blast
next
  have "set (subNames (projr (detail k scripts))) \<subseteq> set (Object_keys scripts)" for k
    using getSubNames_existing[OF detail_fields(4)] by blast
  from getDetailedScripts_inv[of "\<lambda>s. set (subNames s) \<subseteq> set (Object_keys scripts)", OF this, of "[]"]
  show "\<exists>d. getDetailedScripts scripts = Inr d
         \<and> (\<forall>(k, s) \<in> set d. set (subNames s) \<subseteq> set (Object_keys scripts))"
    by (simp add: getDetailedScripts_def)
qed

text \<open>
  The theorem at a command that names a missing script (\<^verbatim>\<open>deploy\<close>), a wildcard
  and a missing name after it: the names without a script are dropped.
\<close>

theorem subNames_are_keys_witness:
  "(\<exists>subs. getSubNames ''build''
        [(''build'', ''npm run lint && npm run deploy && npm-run-all test:* docs''),
         (''lint'', ''eslint .''), (''test:unit'', ''mocha'')] = Inr subs
      \<and> set subs \<subseteq> {''build'', ''lint'', ''test:unit''})
   \<and> getSubNames ''build''
        [(''build'', ''npm run lint && npm run deploy && npm-run-all test:* docs''),
         (''lint'', ''eslint .''), (''test:unit'', ''mocha'')] = Inr [''lint'', ''test:unit'']"
proof -
  let ?S = "[(''build'', ''npm run lint && npm run deploy && npm-run-all test:* docs''),
         (''lint'', ''eslint .''), (''test:unit'', ''mocha'')]"
  have e: "getSubNames ''build'' ?S = Inr [''lint'', ''test:unit'']" by code_simp
  from subNames_are_keys[of "''build''" ?S] have
    "\<exists>subs. getSubNames ''build'' ?S = Inr subs \<and> set subs \<subseteq> set (Object_keys ?S)"
    by blast
  then have "\<exists>subs. getSubNames ''build'' ?S = Inr subs
      \<and> set subs \<subseteq> {''build'', ''lint'', ''test:unit''}"
    by (simp add: Object_keys_def)
  with e show ?thesis by blast
qed

text \<open>
  No dangling name reaches the tree: after the second pass every node of every entry
  is the entry of a key of the script map.
\<close>

lemma nodes_are_entries:
  assumes "distinct (Object_keys scripts)"
  shows "\<exists>d. getDetailedScripts scripts = Inr d
           \<and> (\<forall>(k, s) \<in> set (attachLabelAndNodes d).
                 \<forall>n \<in> set (nodes s). \<exists>x \<in> set (Object_keys scripts). n = Own x)"
proof -
  from detailed_resolved[OF assms] obtain d where
    d: "getDetailedScripts scripts = Inr d" "Object_keys d = Object_keys scripts"
    and a: "attachLabelAndNodes d
         = map (\<lambda>k. (k, resolve d (gatherAllSubNames d) k (projr (detail k scripts))))
               (Object_keys scripts)"
    by blast
  have "\<exists>x \<in> set (Object_keys scripts). n = Own x"
    if "(k, s) \<in> set (attachLabelAndNodes d)" "n \<in> set (nodes s)" for k s n
  proof -
    from that(1) a have s: "s = resolve d (gatherAllSubNames d) k (projr (detail k scripts))"
      by auto
    from that(2) consider "truthy (get scripts (PRE @ k))" "n = ref d (PRE @ k)"
      | x where "x \<in> set (subNames (projr (detail k scripts)))" "n = ref d x"
      | "truthy (get scripts (POST @ k))" "n = ref d (POST @ k)"
      by (auto simp: s nodes_resolve detail_fields split: if_splits)
    then show ?thesis
    proof cases
      case 1
      from truthy_PRE[OF 1(1)] 1(2) d(2) show ?thesis by (auto simp: ref_key)
    next
      case 2
      from getSubNames_existing[OF detail_fields(4) 2(1)] 2(2) d(2) show ?thesis
        by (auto simp: ref_key)
    next
      case 3
      from truthy_POST[OF 3(1)] 3(2) d(2) show ?thesis by (auto simp: ref_key)
    qed
  qed
  with d(1) show ?thesis by blast
qed

subsection \<open>C6: direct invocations\<close>

lemma getRunScripts_build_test_eval:
  "getRunScripts ''npm run build && npm run test'' = Inr [Some ''build'', Some ''test'']"
  by code_simp

lemma getRunScripts_repeated_eval:
  "getRunScripts ''npm run build && npm run test && npm run build''
     = Inr [Some ''build'', Some ''test'']"
  by code_simp

text \<open>
  C6. Direct-invocation extraction: on the command
  \<^verbatim>\<open>npm run build && npm run test\<close> the extractor \<^verbatim>\<open>getRunScripts\<close> returns exactly
  build and test, in that order; a name that is run twice is listed once, and for
  every command the extractor returns a list without duplicates.
\<close>

theorem getRunScripts_build_test:
  "getRunScripts ''npm run build && npm run test'' = Inr [Some ''build'', Some ''test'']
   \<and> getRunScripts ''npm run build && npm run test && npm run build''
       = Inr [Some ''build'', Some ''test'']
   \<and> (\<exists>runs. getRunScripts c = Inr runs \<and> distinct runs)"
  using getRunScripts_build_test_eval getRunScripts_repeated_eval getRunScripts_total
  by blast

subsection \<open>C7: batch invocations\<close>

text \<open>
  C7 (as amended). For every command made of the keyword \<^verbatim>\<open>npm-run-all\<close>, then any
  number of flags, then one or more names, each flag and each name after one space,
  where a flag is one or more dashes followed by one or more word characters and a
  name is a non-empty run of name characters that does not start with a dash:
  \<^verbatim>\<open>getRunAllScripts\<close> returns exactly the names, each once, in the order of their
  first occurrence, and none of the flags is in the result.
\<close>

theorem getRunAllScripts_flags_then_names:
  assumes "list_all is_flag flags" "list_all is_name names" "names \<noteq> []"
  shows "getRunAllScripts
           (''npm-run-all'' @ concat (map ((#) CHR '' '') flags) @ concat (map ((#) CHR '' '') names))
           = Inr (unique names)
         \<and> set flags \<inter> set (unique names) = {}"
proof
  from getMatches_run_all[OF assms] clean_names[OF assms(2,3)]
  show "getRunAllScripts
           (''npm-run-all'' @ concat (map ((#) CHR '' '') flags) @ concat (map ((#) CHR '' '') names))
           = Inr (unique names)"
    by (simp add: getRunAllScripts_def flatten_def)
  have "f \<noteq> n" if "is_flag f" "is_name n" for f n
  proof
    assume "f = n"
    with that have "takeWhile (\<lambda>c. c = CHR ''-'') n \<noteq> []" "take 1 n \<noteq> ''-''" "n \<noteq> []"
      by (simp_all add: is_flag_def is_name_def Let_def)
    then show False by (cases n) (auto split: if_splits)
  qed
  with assms(1,2) show "set flags \<inter> set (unique names) = {}"
    by (auto simp: set_unique list_all_iff)
qed

text \<open>
  The theorem at the flag \<^verbatim>\<open>-s\<close> and the names clean and build: on the command
  \<^verbatim>\<open>npm-run-all -s clean build\<close> the extractor returns exactly clean and build.
\<close>

theorem getRunAllScripts_clean_build:
  "getRunAllScripts ''npm-run-all -s clean build'' = Inr [''clean'', ''build'']"
proof -
  have f: "list_all is_flag [''-s'']"
    by (simp add: is_flag_def word_char_def in_class_def canonicalize_def)
  have n: "list_all is_name [''clean'', ''build'']"
    by (simp add: is_name_def name_char_def in_class_def canonicalize_def)
  from getRunAllScripts_flags_then_names[OF f n] show ?thesis
    by (simp add: unique_def)
qed

text \<open>
  Read for every command, the claim that no token with a leading dash is in the
  result fails: a flag after a name, and a flag with a hyphen inside, are matched by
  the pattern of the names and returned.
\<close>

theorem getRunAllScripts_flag_counterexample:
  "getRunAllScripts ''npm-run-all clean -s build'' = Inr [''clean'', ''-s'', ''build'']
   \<and> getRunAllScripts ''npm-run-all --print-label clean build''
       = Inr [''--print-label'', ''clean'', ''build'']"
  by code_simp

subsection \<open>C8: the hooks in the node list\<close>

text \<open>
  C8 (as amended). For every script map and every script \<open>k\<close> in it (as
  \<^verbatim>\<open>build\<close>) such that the script \<^verbatim>\<open>pre\<close>\<open>k\<close> has a command that is not the empty
  string: the node list of \<open>k\<close> after the second pass starts with the entry of
  \<^verbatim>\<open>pre\<close>\<open>k\<close>; and if \<^verbatim>\<open>post\<close>\<open>k\<close> too has a command that is not the empty string,
  the node list ends with the entry of \<^verbatim>\<open>post\<close>\<open>k\<close>, wherever the command of \<open>k\<close>
  names the two.
\<close>

theorem hooks_first_and_last:
  assumes "distinct (Object_keys scripts)"
    and "k \<in> set (Object_keys scripts)"
    and "truthy (get scripts (PRE @ k))"
  shows "\<exists>d s h. getDetailedScripts scripts = Inr d
           \<and> get (attachLabelAndNodes d) k = Own s
           \<and> nodes s \<noteq> [] \<and> hd (nodes s) = Own (PRE @ k)
           \<and> get (attachLabelAndNodes d) (PRE @ k) = Own h \<and> name h = PRE @ k
           \<and> (truthy (get scripts (POST @ k)) \<longrightarrow> last (nodes s) = Own (POST @ k))"
proof -
  from resolved_entry[OF assms(1,2)] obtain d where
    d: "getDetailedScripts scripts = Inr d" "Object_keys d = Object_keys scripts"
      "get (attachLabelAndNodes d) k
         = Own (resolve d (gatherAllSubNames d) k (projr (detail k scripts)))"
    by blast
  let ?s = "resolve d (gatherAllSubNames d) k (projr (detail k scripts))"
  from truthy_PRE[OF assms(3)] have pk: "PRE @ k \<in> set (Object_keys scripts)" .
  from resolved_entry[OF assms(1) pk] d(1) have
    h: "get (attachLabelAndNodes d) (PRE @ k)
         = Own (resolve d (gatherAllSubNames d) (PRE @ k) (projr (detail (PRE @ k) scripts)))"
    by auto
  have n: "nodes ?s \<noteq> []" "hd (nodes ?s) = Own (PRE @ k)"
    using assms(3) pk d(2) by (simp_all add: nodes_resolve detail_fields ref_key)
  have l: "truthy (get scripts (POST @ k)) \<longrightarrow> last (nodes ?s) = Own (POST @ k)"
    using truthy_POST[of scripts k] d(2) by (simp add: nodes_resolve detail_fields ref_key)
  from d(1,3) h n l show ?thesis
    by (intro exI conjI) (assumption | simp add: name_resolve detail_fields)+
qed

text \<open>
  The theorem at a \<^verbatim>\<open>build\<close> whose command runs \<^verbatim>\<open>postbuild\<close> first: the node list
  is prebuild, postbuild, lint, postbuild.
\<close>

lemma hooks_example_eval:
  "map_sum id (map (nodes \<circ> snd) \<circ> attachLabelAndNodes)
     (getDetailedScripts
        [(''build'', ''npm run postbuild && npm run lint''), (''lint'', ''eslint .''),
         (''prebuild'', ''rimraf dist''), (''postbuild'', ''echo done'')])
     = Inr [[Own ''prebuild'', Own ''postbuild'', Own ''lint'', Own ''postbuild''], [], [], []]"
  by code_simp

theorem hooks_first_and_last_witness:
  "distinct (Object_keys [(''build'', ''npm run postbuild && npm run lint''), (''lint'', ''eslint .''),
         (''prebuild'', ''rimraf dist''), (''postbuild'', ''echo done'')])
   \<and> ''build'' \<in> set (Object_keys [(''build'', ''npm run postbuild && npm run lint''), (''lint'', ''eslint .''),
         (''prebuild'', ''rimraf dist''), (''postbuild'', ''echo done'')])
   \<and> truthy (get [(''build'', ''npm run postbuild && npm run lint''), (''lint'', ''eslint .''),
         (''prebuild'', ''rimraf dist''), (''postbuild'', ''echo done'')] (PRE @ ''build''))
   \<and> truthy (get [(''build'', ''npm run postbuild && npm run lint''), (''lint'', ''eslint .''),
         (''prebuild'', ''rimraf dist''), (''postbuild'', ''echo done'')] (POST @ ''build''))
   \<and> (\<exists>d s h. getDetailedScripts [(''build'', ''npm run postbuild && npm run lint''), (''lint'', ''eslint .''),
         (''prebuild'', ''rimraf dist''), (''postbuild'', ''echo done'')] = Inr d
           \<and> get (attachLabelAndNodes d) ''build'' = Own s
           \<and> nodes s \<noteq> [] \<and> hd (nodes s) = Own (PRE @ ''build'')
           \<and> get (attachLabelAndNodes d) (PRE @ ''build'') = Own h \<and> name h = PRE @ ''build''
           \<and> last (nodes s) = Own (POST @ ''build''))"
proof -
  let ?S = "[(''build'', ''npm run postbuild && npm run lint''), (''lint'', ''eslint .''),
         (''prebuild'', ''rimraf dist''), (''postbuild'', ''echo done'')]"
  have d: "distinct (Object_keys ?S)" by (simp add: Object_keys_def)
  have k: "''build'' \<in> set (Object_keys ?S)" by (simp add: Object_keys_def)
  have p: "truthy (get ?S (PRE @ ''build''))" by (simp add: get_def PRE_def)
  have q: "truthy (get ?S (POST @ ''build''))" by (simp add: get_def POST_def)
  from hooks_first_and_last[OF d k p] q have
    "\<exists>d s h. getDetailedScripts ?S = Inr d
           \<and> get (attachLabelAndNodes d) ''build'' = Own s
           \<and> nodes s \<noteq> [] \<and> hd (nodes s) = Own (PRE @ ''build'')
           \<and> get (attachLabelAndNodes d) (PRE @ ''build'') = Own h \<and> name h = PRE @ ''build''
           \<and> last (nodes s) = Own (POST @ ''build'')"
    by blast
  with d k p q show ?thesis by blast
qed

text \<open>
  The claim as stated fails when \<^verbatim>\<open>prebuild\<close> is a key with the empty command: the
  node list of \<^verbatim>\<open>build\<close> is then empty.
\<close>

theorem hooks_empty_command_counterexample:
  "''build'' \<in> set (Object_keys [(''build'', ''tsc''), (''prebuild'', [])])
   \<and> ''prebuild'' \<in> set (Object_keys [(''build'', ''tsc''), (''prebuild'', [])])
   \<and> map_sum id (map (nodes \<circ> snd) \<circ> attachLabelAndNodes)
         (getDetailedScripts [(''build'', ''tsc''), (''prebuild'', [])])
       = Inr [[], []]"
  by code_simp

subsection \<open>C9: pruning twice\<close>

text \<open>
  C9. For every map of resolved entries, pruning the pruned map gives the pruned
  map.
\<close>

theorem prune_idempotent: "prune (prune scripts) = prune scripts"
proof -
  from keep_fold_inv[of "[]" "\<lambda>s. \<not> isPre s \<and> \<not> isPost s \<and> \<not> isExplicitSub s" scripts]
  have d: "distinct (Object_keys (prune scripts))"
    and k: "\<forall>(k, s) \<in> set (prune scripts). \<not> isPre s \<and> \<not> isPost s \<and> \<not> isExplicitSub s"
    by (simp_all add: prune_def Object_keys_def)
  have "prune (prune scripts)
          = filter (\<lambda>(k, s). \<not> isPre s \<and> \<not> isPost s \<and> \<not> isExplicitSub s) (prune scripts)"
    by (rule prune_filter[OF d])
  also have "\<dots> = prune scripts"
    using k by (intro filter_True) auto
  finally show ?thesis .
qed

text \<open>
  For an object, whose keys are distinct, \<^verbatim>\<open>prune\<close> is the filter of the entries
  that are neither a hook nor an explicit sub-script: \<open>prune_filter\<close>.
\<close>

subsection \<open>C10: a script with the empty command\<close>

text \<open>
  C10. For every script map in which the command of the script \<open>e\<close> is the empty
  string: \<open>e\<close> is a key of the map, and still no entry has \<open>e\<close> among its
  \<^verbatim>\<open>subNames\<close>, and no entry has the entry of \<open>e\<close> in its \<^verbatim>\<open>nodes\<close>; in particular
  a script \<^verbatim>\<open>pre\<close>\<open>k\<close> or \<^verbatim>\<open>post\<close>\<open>k\<close> with the empty command is not attached as
  a hook of \<open>k\<close>.
\<close>

theorem empty_command_not_a_node:
  assumes "distinct (Object_keys scripts)"
    and "get scripts e = Own []"
  shows "\<exists>d. getDetailedScripts scripts = Inr d
           \<and> Object_keys (attachLabelAndNodes d) = Object_keys scripts
           \<and> (\<forall>(k, s) \<in> set (attachLabelAndNodes d).
                 e \<notin> set (subNames s) \<and> Own e \<notin> set (nodes s))"
proof -
  from detailed_resolved[OF assms(1)] obtain d where
    d: "getDetailedScripts scripts = Inr d" "Object_keys d = Object_keys scripts"
    and a: "attachLabelAndNodes d
         = map (\<lambda>k. (k, resolve d (gatherAllSubNames d) k (projr (detail k scripts))))
               (Object_keys scripts)"
    by blast
  have keys: "Object_keys (attachLabelAndNodes d) = Object_keys scripts"
    by (simp only: a keys_map_keys)
  have subs: "e \<notin> set (subNames (projr (detail k scripts)))" for k
    using getSubNames_existing[OF detail_fields(4), of e k scripts] assms(2) by auto
  have "e \<notin> set (subNames s) \<and> Own e \<notin> set (nodes s)"
    if "(k, s) \<in> set (attachLabelAndNodes d)" for k s
  proof -
    from that a have s: "s = resolve d (gatherAllSubNames d) k (projr (detail k scripts))"
      by auto
    have "Own e \<notin> set (nodes s)"
    proof
      assume "Own e \<in> set (nodes s)"
      then consider "truthy (get scripts (PRE @ k))" "ref d (PRE @ k) = Own e"
        | x where "x \<in> set (subNames (projr (detail k scripts)))" "ref d x = Own e"
        | "truthy (get scripts (POST @ k))" "ref d (POST @ k) = Own e"
        by (auto simp: s nodes_resolve detail_fields split: if_splits)
      then show False
      proof cases
        case 1
        with ref_Own[OF 1(2)] assms(2) show False by simp
      next
        case 2
        with ref_Own[OF 2(2)] subs[of k] show False by simp
      next
        case 3
        with ref_Own[OF 3(2)] assms(2) show False by simp
      qed
    qed
    with subs[of k] show ?thesis by (simp add: s subNames_resolve)
  qed
  with d keys show ?thesis by blast
qed

text \<open>
  The theorem at a \<^verbatim>\<open>build\<close> that runs \<^verbatim>\<open>lint\<close> and \<^verbatim>\<open>test\<close>, where \<^verbatim>\<open>lint\<close>
  and \<^verbatim>\<open>prebuild\<close> have the empty command: the only node of \<^verbatim>\<open>build\<close> is
  \<^verbatim>\<open>test\<close>.
\<close>

lemma empty_command_example_eval:
  "map_sum id (map (nodes \<circ> snd) \<circ> attachLabelAndNodes)
     (getDetailedScripts
        [(''build'', ''npm run lint && npm run test''), (''lint'', []),
         (''prebuild'', []), (''test'', ''jest'')])
     = Inr [[Own ''test''], [], [], []]"
  by code_simp

theorem empty_command_not_a_node_witness:
  "distinct (Object_keys [(''build'', ''npm run lint && npm run test''), (''lint'', []),
                          (''prebuild'', []), (''test'', ''jest'')])
   \<and> get [(''build'', ''npm run lint && npm run test''), (''lint'', []),
           (''prebuild'', []), (''test'', ''jest'')] ''prebuild'' = Own []
   \<and> (\<exists>d s. getDetailedScripts [(''build'', ''npm run lint && npm run test''), (''lint'', []),
                          (''prebuild'', []), (''test'', ''jest'')] = Inr d
          \<and> (''build'', s) \<in> set (attachLabelAndNodes d)
          \<and> ''prebuild'' \<notin> set (subNames s) \<and> Own ''prebuild'' \<notin> set (nodes s))"
proof -
  let ?S = "[(''build'', ''npm run lint && npm run test''), (''lint'', []),
             (''prebuild'', []), (''test'', ''jest'')]"
  have d: "distinct (Object_keys ?S)" by (simp add: Object_keys_def)
  have e: "get ?S ''prebuild'' = Own []" by (simp add: get_def)
  from empty_command_not_a_node[OF d e] obtain r where
    r: "getDetailedScripts ?S = Inr r" "Object_keys (attachLabelAndNodes r) = Object_keys ?S"
      "\<forall>(k, s) \<in> set (attachLabelAndNodes r).
          ''prebuild'' \<notin> set (subNames s) \<and> Own ''prebuild'' \<notin> set (nodes s)"
    by blast
  have "''build'' \<in> set (Object_keys ?S)" by (simp add: Object_keys_def)
  then have "''build'' \<in> set (Object_keys (attachLabelAndNodes r))"
    by (simp only: r(2))
  then obtain s where "(''build'', s) \<in> set (attachLabelAndNodes r)"
    by (auto simp: Object_keys_def)
  with r(1,3) d e show ?thesis by blast
qed

section \<open>Where \<^verbatim>\<open>src/index.js\<close> differs\<close>

text \<open>
  The earlier \<^verbatim>\<open>expandWildcard\<close> expands \<^verbatim>\<open>test:*\<close> to the keys that start with
  \<^verbatim>\<open>test:\<close>, and leaves \<^verbatim>\<open>test:**\<close> as it is; the name \<^verbatim>\<open>test:**\<close> then has no
  script and is dropped.
\<close>

lemma expandWildcard_index_test:
  "expandWildcard_index [''test:*''] [(''test:lint'', c1), (''test:unit'', c2), (''build'', c3)]
     = [''test:lint'', ''test:unit'']
   \<and> expandWildcard_index [''test:**'']
         [(''test:lint'', c1), (''test:unit'', c2), (''build'', c3), (''test:unit:fast'', c4)]
     = [''test:**'']"
  by (simp add: expandWildcard_index_def Object_keys_def flatten_def startsWith_def)

text \<open>The earlier \<^verbatim>\<open>getRunScripts\<close> gives the same names on the command of C6.\<close>

lemma getRunScripts_index_build_test:
  "getRunScripts_index ''npm run build && npm run test'' = Inr [Some ''build'', Some ''test'']"
  by code_simp

text \<open>
  The earlier \<^verbatim>\<open>getNodesNames\<close> lists a name twice on the input of C2, and keeps a
  name that is no key of the script map when every object inherits a member of that
  name.
\<close>

lemma getNodesNames_index_duplicate:
  "getNodesNames_index ''test''
     [(''test:lint'', ''eslint .''), (''test:unit'', ''mocha''),
      (''test'', ''npm-run-all test:* test:lint'')]
     = Inr [''test:lint'', ''test:unit'', ''test:lint'']"
  by code_simp

lemma getNodesNames_index_inherited:
  "getNodesNames_index ''build''
     [(''build'', ''npm run constructor && npm run lint''), (''lint'', ''eslint .'')]
     = Inr [''constructor'', ''lint'']"
  by code_simp

end
